theory Spec2Isabelle
  imports Main "HOL-Library.AList" "HOL-Library.Sublist"
begin

section \<open>JavaScript values and the object store\<close>

text \<open>
  The library of \<^verbatim>\<open>src/index.js\<close> works on ordinary JavaScript values. Several of its
  guarantees are about reference identity (\<^verbatim>\<open>===\<close> on objects) and about the absence of
  mutation, so objects and arrays live in an explicit store: a value of reference type is an
  address, and the store is the list of all cells allocated so far (the address of a cell is
  its position, allocation appends). Two references are identical exactly when their
  addresses are equal.

  A plain object is its prototype together with the list of its own enumerable data
  properties in creation order; all of them are writable. An array is the list of its
  elements, where a hole (an index below the length that is no own property, as in
  \<^verbatim>\<open>new Array(3)\<close>) is \<open>None\<close>; its prototype is \<^verbatim>\<open>Array.prototype\<close>. A function is opaque: it
  is named by an identifier and has no own enumerable property. \<open>ObjectPrototype\<close> is the
  object \<^verbatim>\<open>Object.prototype\<close> itself. Numbers are integers (the library never computes with
  them, it only compares an index with \<^verbatim>\<open>!==\<close>). Accessor properties, non-enumerable or
  read-only own properties of plain objects, symbols and proxies are not represented.
\<close>

type_synonym addr = nat

datatype fid = UserFn nat | NativeFn string

datatype jsval =
    Undefined
  | Null
  | Bool bool
  | Num int
  | Str string
  | Ref addr
  | Fun fid
  | ObjectPrototype

datatype hobj =
    Obj jsval "(string \<times> jsval) list"
  | Arr "jsval option list"

type_synonym heap = "hobj list"

text \<open>What a \<^verbatim>\<open>throw\<close> carries: an \<^verbatim>\<open>Error\<close> of the library with its message or a
  \<^verbatim>\<open>TypeError\<close> of the language, or whatever a user callback throws.\<close>

datatype exn =
    Error string
  | Thrown jsval

definition type_error :: exn where
  "type_error = Error ''TypeError''"

definition heap_get :: "heap \<Rightarrow> addr \<Rightarrow> hobj option" where
  "heap_get h a = (if a < length h then Some (h ! a) else None)"

definition alloc :: "heap \<Rightarrow> hobj \<Rightarrow> jsval \<times> heap" where
  "alloc h cell = (Ref (length h), h @ [cell])"

definition typeof :: "jsval \<Rightarrow> string" where
  "typeof v = (case v of
      Undefined \<Rightarrow> ''undefined''
    | Null \<Rightarrow> ''object''
    | Bool b \<Rightarrow> ''boolean''
    | Num n \<Rightarrow> ''number''
    | Str s \<Rightarrow> ''string''
    | Ref a \<Rightarrow> ''object''
    | Fun f \<Rightarrow> ''function''
    | ObjectPrototype \<Rightarrow> ''object'')"

definition isArray :: "heap \<Rightarrow> jsval \<Rightarrow> bool" where
  "isArray h v = (case v of
      Ref a \<Rightarrow> (case heap_get h a of Some (Arr xs) \<Rightarrow> True | _ \<Rightarrow> False)
    | _ \<Rightarrow> False)"

text \<open>The elements of an array value, holes included (the empty list for anything else).\<close>

definition elems :: "heap \<Rightarrow> jsval \<Rightarrow> jsval option list" where
  "elems h v = (case v of
      Ref a \<Rightarrow> (case heap_get h a of Some (Arr xs) \<Rightarrow> xs | _ \<Rightarrow> [])
    | _ \<Rightarrow> [])"

subsection \<open>Property keys\<close>

text \<open>An array index used as a property key is its decimal numeral.\<close>

definition digits10 :: string where
  "digits10 = ''0123456789''"

fun show_nat :: "nat \<Rightarrow> string" where
  "show_nat n = (if n < 10 then [digits10 ! n] else show_nat (n div 10) @ [digits10 ! (n mod 10)])"

declare show_nat.simps [simp del]

definition digit_val :: "char \<Rightarrow> nat" where
  "digit_val c = length (takeWhile (\<lambda>d. d \<noteq> c) digits10)"

definition int_of_digits :: "string \<Rightarrow> int" where
  "int_of_digits s = foldl (\<lambda>acc c. 10 * acc + int (digit_val c)) 0 s"

text \<open>A key is an array index when it is the canonical numeral of a number below
  \<open>2\<^sup>3\<^sup>2 - 1\<close>. Own keys are enumerated with the array indices first, in ascending numeric
  order, then the other keys in creation order.\<close>

definition is_index :: "string \<Rightarrow> bool" where
  "is_index k = (k \<noteq> [] \<and> list_all (\<lambda>c. c \<in> set digits10) k
      \<and> show_nat (nat (int_of_digits k)) = k \<and> int_of_digits k < 4294967295)"

definition ordered :: "(string \<times> jsval) list \<Rightarrow> (string \<times> jsval) list" where
  "ordered ps = sort_key (\<lambda>p. int_of_digits (fst p)) (filter (\<lambda>p. is_index (fst p)) ps)
      @ filter (\<lambda>p. \<not> is_index (fst p)) ps"

text \<open>The index properties of a list of elements: one for every element that is there.\<close>

definition index_props :: "jsval option list \<Rightarrow> (string \<times> jsval) list" where
  "index_props xs = map (\<lambda>(i, x). (show_nat i, the x))
      (filter (\<lambda>(i, x). x \<noteq> None) (zip [0..<length xs] xs))"

text \<open>The own enumerable properties of a value, in key order: what \<^verbatim>\<open>Object.keys\<close>,
  \<^verbatim>\<open>Object.assign\<close> and object spread enumerate. A string has one property per character,
  the other primitives, functions and \<^verbatim>\<open>Object.prototype\<close> have none.\<close>

definition own_props :: "heap \<Rightarrow> jsval \<Rightarrow> (string \<times> jsval) list" where
  "own_props h v = (case v of
      Ref a \<Rightarrow> (case heap_get h a of
                  Some (Obj p ps) \<Rightarrow> ordered ps
                | Some (Arr xs) \<Rightarrow> index_props xs
                | None \<Rightarrow> [])
    | Str s \<Rightarrow> index_props (map (\<lambda>c. Some (Str [c])) s)
    | _ \<Rightarrow> [])"

text \<open>\<^verbatim>\<open>Object.keys(v)\<close> throws a \<^verbatim>\<open>TypeError\<close> on \<^verbatim>\<open>null\<close> and \<^verbatim>\<open>undefined\<close>.\<close>

definition object_keys :: "heap \<Rightarrow> jsval \<Rightarrow> exn + string list" where
  "object_keys h v =
     (if v = Null \<or> v = Undefined then Inl type_error else Inr (map fst (own_props h v)))"

text \<open>Reading a property from a property list: \<^verbatim>\<open>undefined\<close> when the key is absent.\<close>

definition lookup :: "(string \<times> jsval) list \<Rightarrow> string \<Rightarrow> jsval" where
  "lookup ps k = (case map_of ps k of None \<Rightarrow> Undefined | Some v \<Rightarrow> v)"

subsection \<open>The environment: callbacks and built-in prototypes\<close>

text \<open>
  The payload of \<^verbatim>\<open>pipe\<close> is a user function. A callback receives its argument and the
  store; it either throws a value or returns a value together with the cells it has
  allocated, which are appended to the store. Callbacks are therefore pure in the sense of
  the library's contract: they read, allocate and throw, and never write to an existing
  cell.

  What the language provides is a parameter of the model: the behaviour of every function,
  the data properties of \<^verbatim>\<open>Array.prototype\<close>, and what a function object together with
  \<^verbatim>\<open>Function.prototype\<close> offers under a key (nothing, a data property that is writable or
  not, or an accessor that throws such as \<^verbatim>\<open>caller\<close>).
\<close>

type_synonym callback = "jsval \<Rightarrow> heap \<Rightarrow> jsval + (jsval \<times> hobj list)"

datatype inherited = Absent | Data jsval bool | Throwing

record env =
  fns :: "fid \<Rightarrow> callback"
  array_proto :: "string \<Rightarrow> jsval option"
  fn_chain :: "fid \<Rightarrow> string \<Rightarrow> inherited"

definition call :: "env \<Rightarrow> jsval \<Rightarrow> jsval \<Rightarrow> heap \<Rightarrow> exn + (jsval \<times> heap)" where
  "call E fn arg h = (case fn of
      Fun f \<Rightarrow> (case fns E f arg h of
                  Inl thrown \<Rightarrow> Inl (Thrown thrown)
                | Inr (r, cells) \<Rightarrow> Inr (r, h @ cells))
    | _ \<Rightarrow> Inl type_error)"

text \<open>The data properties of \<^verbatim>\<open>Object.prototype\<close>, all of them functions and writable. Its
  one accessor, \<^verbatim>\<open>__proto__\<close>, is treated where properties are read and assigned.\<close>

definition object_prototype_names :: "string list" where
  "object_prototype_names =
     [''constructor'', ''__defineGetter__'', ''__defineSetter__'', ''hasOwnProperty'',
      ''__lookupGetter__'', ''__lookupSetter__'', ''isPrototypeOf'', ''propertyIsEnumerable'',
      ''toString'', ''valueOf'', ''toLocaleString'']"

definition object_prototype :: "string \<Rightarrow> jsval option" where
  "object_prototype k =
     (if k \<in> set object_prototype_names then Some (Fun (NativeFn (''Object.prototype.'' @ k)))
      else None)"

text \<open>The own properties of an array that a read finds: its elements and its length.\<close>

definition array_own :: "jsval option list \<Rightarrow> string \<Rightarrow> jsval option" where
  "array_own xs k =
     (if k = ''length'' then Some (Num (int (length xs))) else map_of (index_props xs) k)"

subsection \<open>Reading and assigning a property of a plain object\<close>

text \<open>
  \<^verbatim>\<open>o[k]\<close> looks for the key in the object and then along its prototype chain. \<open>rp\<close> is the
  prototype of the object the read started from, which the getter of \<^verbatim>\<open>__proto__\<close> returns.
  The first argument after the store bounds the number of steps; a chain of a store has
  no more links than the store has cells.
\<close>

fun chain_get :: "env \<Rightarrow> heap \<Rightarrow> jsval \<Rightarrow> nat \<Rightarrow> jsval \<Rightarrow> string \<Rightarrow> exn + jsval" where
  "chain_get E h rp 0 holder k = Inr Undefined"
| "chain_get E h rp (Suc n) holder k = (case holder of
      ObjectPrototype \<Rightarrow>
        Inr (if k = ''__proto__'' then rp
             else case object_prototype k of Some v \<Rightarrow> v | None \<Rightarrow> Undefined)
    | Ref a \<Rightarrow> (case heap_get h a of
          Some (Obj p ps) \<Rightarrow>
            (case map_of ps k of Some v \<Rightarrow> Inr v | None \<Rightarrow> chain_get E h rp n p k)
        | Some (Arr xs) \<Rightarrow>
            (case array_own xs k of
               Some v \<Rightarrow> Inr v
             | None \<Rightarrow> (case array_proto E k of
                          Some v \<Rightarrow> Inr v
                        | None \<Rightarrow> chain_get E h rp n ObjectPrototype k))
        | None \<Rightarrow> Inr Undefined)
    | Fun f \<Rightarrow> (case fn_chain E f k of
          Data v w \<Rightarrow> Inr v
        | Throwing \<Rightarrow> Inl type_error
        | Absent \<Rightarrow> chain_get E h rp n ObjectPrototype k)
    | _ \<Rightarrow> Inr Undefined)"

definition js_get :: "env \<Rightarrow> heap \<Rightarrow> addr \<Rightarrow> string \<Rightarrow> exn + jsval" where
  "js_get E h c k = (case heap_get h c of
      Some (Obj p ps) \<Rightarrow> chain_get E h p (Suc (Suc (length h))) (Ref c) k
    | _ \<Rightarrow> Inr Undefined)"

text \<open>What an assignment finds for the key on the prototype chain of the object.\<close>

datatype found = NotFound | Writable | ReadOnly | ProtoSetter | ThrowingSetter

fun chain_find :: "env \<Rightarrow> heap \<Rightarrow> nat \<Rightarrow> jsval \<Rightarrow> string \<Rightarrow> found" where
  "chain_find E h 0 holder k = NotFound"
| "chain_find E h (Suc n) holder k = (case holder of
      ObjectPrototype \<Rightarrow>
        (if k = ''__proto__'' then ProtoSetter
         else if object_prototype k \<noteq> None then Writable else NotFound)
    | Ref a \<Rightarrow> (case heap_get h a of
          Some (Obj p ps) \<Rightarrow> (if map_of ps k \<noteq> None then Writable else chain_find E h n p k)
        | Some (Arr xs) \<Rightarrow>
            (if array_own xs k \<noteq> None \<or> array_proto E k \<noteq> None then Writable
             else chain_find E h n ObjectPrototype k)
        | None \<Rightarrow> NotFound)
    | Fun f \<Rightarrow> (case fn_chain E f k of
          Data v w \<Rightarrow> (if w then Writable else ReadOnly)
        | Throwing \<Rightarrow> ThrowingSetter
        | Absent \<Rightarrow> chain_find E h n ObjectPrototype k)
    | _ \<Rightarrow> NotFound)"

text \<open>Whether the object at \<open>c\<close> is on the prototype chain that starts at \<open>v\<close>.\<close>

fun in_chain :: "heap \<Rightarrow> nat \<Rightarrow> jsval \<Rightarrow> addr \<Rightarrow> bool" where
  "in_chain h 0 v c = False"
| "in_chain h (Suc n) v c = (case v of
      Ref a \<Rightarrow> a = c \<or> (case heap_get h a of Some (Obj p ps) \<Rightarrow> in_chain h n p c | _ \<Rightarrow> False)
    | _ \<Rightarrow> False)"

definition is_object :: "jsval \<Rightarrow> bool" where
  "is_object v = (case v of Ref a \<Rightarrow> True | Fun f \<Rightarrow> True | ObjectPrototype \<Rightarrow> True | _ \<Rightarrow> False)"

text \<open>
  \<^verbatim>\<open>o[k] = v\<close> in strict code, and the assignment \<^verbatim>\<open>Object.assign\<close> performs, on the plain
  object at \<open>c\<close>. An own property is overwritten in place. Otherwise the prototype chain
  decides: a read-only property or a throwing accessor there makes the assignment a
  \<^verbatim>\<open>TypeError\<close>; the setter of \<^verbatim>\<open>__proto__\<close> makes an object or \<^verbatim>\<open>null\<close> the new prototype
  (a \<^verbatim>\<open>TypeError\<close> if that closes a cycle), ignores any other value and creates no
  property; in every other case a new own property is created, last in order.
\<close>

definition js_set :: "env \<Rightarrow> heap \<Rightarrow> addr \<Rightarrow> string \<Rightarrow> jsval \<Rightarrow> exn + heap" where
  "js_set E h c k v = (case heap_get h c of
      Some (Obj p ps) \<Rightarrow>
        if map_of ps k \<noteq> None then Inr (h[c := Obj p (AList.update k v ps)])
        else (case chain_find E h (Suc (Suc (length h))) p k of
            NotFound \<Rightarrow> Inr (h[c := Obj p (AList.update k v ps)])
          | Writable \<Rightarrow> Inr (h[c := Obj p (AList.update k v ps)])
          | ReadOnly \<Rightarrow> Inl type_error
          | ThrowingSetter \<Rightarrow> Inl type_error
          | ProtoSetter \<Rightarrow>
              if is_object v \<or> v = Null
              then (if in_chain h (Suc (Suc (length h))) v c then Inl type_error
                    else Inr (h[c := Obj v ps]))
              else Inr h)
    | _ \<Rightarrow> Inr h)"

text \<open>\<^verbatim>\<open>Object.assign({}, ...sources)\<close>: a new plain object is allocated and every own
  property of every source, in order, is assigned to it.\<close>

fun assign_props :: "env \<Rightarrow> heap \<Rightarrow> addr \<Rightarrow> (string \<times> jsval) list \<Rightarrow> exn + heap" where
  "assign_props E h c [] = Inr h"
| "assign_props E h c ((k, v) # rest) = (case js_set E h c k v of
      Inl e \<Rightarrow> Inl e
    | Inr h' \<Rightarrow> assign_props E h' c rest)"

definition object_assign :: "env \<Rightarrow> heap \<Rightarrow> jsval list \<Rightarrow> exn + (jsval \<times> heap)" where
  "object_assign E h sources =
     (case assign_props E (h @ [Obj ObjectPrototype []]) (length h)
             (concat (map (own_props h) sources)) of
        Inl e \<Rightarrow> Inl e
      | Inr h' \<Rightarrow> Inr (Ref (length h), h'))"

text \<open>The object literal \<^verbatim>\<open>{ ...acc }\<close>: a new plain object with the own properties of
  \<open>acc\<close>, defined rather than assigned, so that no setter is involved.\<close>

definition spread :: "heap \<Rightarrow> jsval \<Rightarrow> (string \<times> jsval) list" where
  "spread h acc = own_props h acc"

section \<open>The operations\<close>

text \<open>The six functions of \<^verbatim>\<open>operationalMapper\<close>, in the order of the source. Each takes the
  store, the old value and the payload, and returns the new value with the new store, or
  throws.\<close>

type_synonym outcome = "exn + (jsval \<times> heap)"

definition pipe :: "env \<Rightarrow> heap \<Rightarrow> jsval \<Rightarrow> jsval \<Rightarrow> outcome" where
  "pipe E h val predicate =
     (if val = Null \<or> val = Undefined \<or> typeof predicate \<noteq> ''function''
      then Inr (val, h)
      else call E predicate val h)"

definition set_op :: "heap \<Rightarrow> jsval \<Rightarrow> jsval \<Rightarrow> outcome" where
  "set_op h oldValue newValue =
     (if newValue = Null \<or> newValue = Undefined then Inr (oldValue, h) else Inr (newValue, h))"

text \<open>\<^verbatim>\<open>Array.prototype.concat\<close> spreads an argument that is an array, holes included, and
  appends any other argument as one element.\<close>

definition extend_op :: "heap \<Rightarrow> jsval \<Rightarrow> jsval \<Rightarrow> outcome" where
  "extend_op h oldArray newArray =
     (if \<not> isArray h newArray \<or> \<not> isArray h oldArray then Inr (oldArray, h)
      else if length (elems h newArray) \<noteq> 0
        then Inr (alloc h (Arr (elems h oldArray @ elems h newArray)))
      else Inr (oldArray, h))"

definition append_op :: "heap \<Rightarrow> jsval \<Rightarrow> jsval \<Rightarrow> outcome" where
  "append_op h oldList val =
     (if val = Undefined \<or> val = Null \<or> \<not> isArray h oldList then Inr (oldList, h)
      else Inr (alloc h (Arr (elems h oldList
                               @ (if isArray h val then elems h val else [Some val])))))"

definition merge :: "env \<Rightarrow> heap \<Rightarrow> jsval \<Rightarrow> jsval \<Rightarrow> outcome" where
  "merge E h oldObject newObject =
     (if newObject = Null \<or> newObject = Undefined \<or> typeof newObject \<noteq> ''object''
      then Inr (oldObject, h)
      else case object_keys h newObject of
          Inl e \<Rightarrow> Inl e
        | Inr keys \<Rightarrow>
            if typeof newObject = ''object'' \<and> length keys = 0 then Inr (oldObject, h)
            else object_assign E h [oldObject, newObject])"

text \<open>One step of the \<^verbatim>\<open>reduce\<close> in \<^verbatim>\<open>deleteOp\<close>: both branches build a new object from a
  spread of the accumulator; \<^verbatim>\<open>oldObject[k]\<close> reads an own property.\<close>

definition delete_step :: "jsval \<Rightarrow> jsval \<Rightarrow> jsval \<times> heap \<Rightarrow> string \<Rightarrow> jsval \<times> heap" where
  "delete_step oldObject key st k = (case st of (acc, h) \<Rightarrow>
     (if Str k = key
      then alloc h (Obj ObjectPrototype (spread h acc))
      else alloc h (Obj ObjectPrototype
                      (AList.update k (lookup (own_props h oldObject) k) (spread h acc)))))"

text \<open>\<^verbatim>\<open>Array.prototype.filter\<close> skips the holes; the index is a number, so only a number
  can be equal to it.\<close>

definition deleteOp :: "heap \<Rightarrow> jsval \<Rightarrow> jsval \<Rightarrow> outcome" where
  "deleteOp h oldObject key =
     (if key = Null \<or> key = Undefined then Inr (oldObject, h)
      else if isArray h oldObject
        then Inr (alloc h (Arr (map fst
               (filter (\<lambda>(val, index). val \<noteq> None \<and> key \<noteq> Num (int index))
                  (zip (elems h oldObject) [0..<length (elems h oldObject)])))))
      else if typeof oldObject = ''object'' \<and> oldObject \<noteq> Null
        then (case object_keys h oldObject of
                Inl e \<Rightarrow> Inl e
              | Inr keys \<Rightarrow>
                  Inr (foldl (delete_step oldObject key) (alloc h (Obj ObjectPrototype [])) keys))
      else Inr (oldObject, h))"

datatype opname = OpSet | OpAppend | OpMerge | OpExtend | OpDelete | OpPipe

definition operationalMapper :: "env \<Rightarrow> opname \<Rightarrow> heap \<Rightarrow> jsval \<Rightarrow> jsval \<Rightarrow> outcome" where
  "operationalMapper E operation h old payload = (case operation of
      OpSet \<Rightarrow> set_op h old payload
    | OpAppend \<Rightarrow> append_op h old payload
    | OpMerge \<Rightarrow> merge E h old payload
    | OpExtend \<Rightarrow> extend_op h old payload
    | OpDelete \<Rightarrow> deleteOp h old payload
    | OpPipe \<Rightarrow> pipe E h old payload)"

section \<open>Selectors, the pending updates and the session\<close>

text \<open>
  A selector tree mirrors the shape of the target: a node is a nested mapping, given by its
  entries in the order of \<^verbatim>\<open>Object.keys\<close>, or a pointer marker, a string that starts with
  \<^verbatim>\<open>#\<close>. \<open>Marker p\<close> stands for the string \<^verbatim>\<open>"#" + p\<close>, so the bare marker \<^verbatim>\<open>"#"\<close> is
  \<open>Marker []\<close>; selector leaves that are not such strings are not selectors of the library.
\<close>

datatype selector =
    Marker string
  | Mapping "(string \<times> selector) list"

definition marker_string :: "string \<Rightarrow> string" where
  "marker_string p = CHR ''#'' # p"

text \<open>An entry of \<^verbatim>\<open>toUpdate\<close> is the object \<^verbatim>\<open>{ value, operation }\<close>; \<^verbatim>\<open>toUpdate\<close> itself is a
  plain object that never escapes the closure, kept here as its property list. Its keys
  are \<^verbatim>\<open>default\<close> and strings that start with \<^verbatim>\<open>#\<close>, written by object spread and computed
  keys, which define properties.\<close>

datatype updater = Updater (upd_value: jsval) (upd_operation: opname)

type_synonym ledger = "(string \<times> updater) list"

definition startsWith :: "string \<Rightarrow> string \<Rightarrow> bool" where
  "startsWith s p = (take (length p) s = p)"

text \<open>One resumption of the generator \<^verbatim>\<open>toUpdateCoro\<close> with \<^verbatim>\<open>{ updatePayload, pointer }\<close>.\<close>

definition toUpdateCoro :: "ledger \<Rightarrow> updater \<Rightarrow> string \<Rightarrow> ledger" where
  "toUpdateCoro toUpdate updatePayload pointer =
     (if pointer = ''#'' then AList.update ''default'' updatePayload toUpdate
      else if startsWith pointer ''#'' \<and> length pointer > 1
        then AList.update pointer updatePayload toUpdate
      else toUpdate)"

record session =
  originalObject :: jsval
  selectorObject :: selector
  toUpdate :: ledger
  targetPointer :: string

definition reduce :: "selector \<Rightarrow> exn + selector" where
  "reduce sel = (case sel of
      Marker p \<Rightarrow> Inl (Error ''Invalid selector'')
    | Mapping entries \<Rightarrow>
        if length entries = 0 then Inl (Error ''Invalid selector. No keys to traverse.'')
        else Inr sel)"

definition selectorWrapper :: "selector \<Rightarrow> jsval \<Rightarrow> session" where
  "selectorWrapper sel obj =
     \<lparr>originalObject = obj, selectorObject = sel, toUpdate = [], targetPointer = ''#''\<rparr>"

definition falsy :: "jsval \<Rightarrow> bool" where
  "falsy v = (v = Undefined \<or> v = Null \<or> v = Bool False \<or> v = Num 0 \<or> v = Str [])"

definition of_target :: "jsval \<Rightarrow> session \<Rightarrow> session" where
  "of_target target s =
     (if falsy target then s
      else case target of
          Str t \<Rightarrow> if startsWith t ''#'' \<and> length t > 1 then s\<lparr>targetPointer := t\<rparr> else s
        | _ \<Rightarrow> s)"

text \<open>The guard of the wrapper is written as in the source (it holds for every value).\<close>

definition operationFactory :: "opname \<Rightarrow> jsval \<Rightarrow> session \<Rightarrow> session" where
  "operationFactory operationName v s =
     (if v \<noteq> Undefined \<or> v \<noteq> Null
      then s\<lparr>toUpdate := toUpdateCoro (toUpdate s) (Updater v operationName) (targetPointer s)\<rparr>
      else s)"

section \<open>The traversal\<close>

definition no_operation :: exn where
  "no_operation = Error ''Should at least has a one operation intended before applying changes''"

text \<open>
  \<^verbatim>\<open>selectTransform\<close> and its \<^verbatim>\<open>for\<close> loop. The loop runs over the entries of the selector
  that are still to be visited; \<open>c\<close> is the address of \<^verbatim>\<open>clonedObject\<close>, the plain object made
  by \<^verbatim>\<open>Object.assign({}, originalObject)\<close>, which the loop reads from and assigns into.
  When a child is \<^verbatim>\<open>undefined\<close> or \<^verbatim>\<open>null\<close> the variable is rebound to \<^verbatim>\<open>originalObject\<close> and
  the loop is left. An exception of a read, of a recursive call or of an assignment leaves
  the function.
\<close>

fun selectTransform :: "env \<Rightarrow> ledger \<Rightarrow> heap \<Rightarrow> jsval \<Rightarrow> selector \<Rightarrow> outcome"
  and selectLoop ::
    "env \<Rightarrow> ledger \<Rightarrow> heap \<Rightarrow> jsval \<Rightarrow> addr \<Rightarrow> (string \<times> selector) list \<Rightarrow> outcome"
where
  "selectTransform E tu h node (Marker p) =
     (let sel = marker_string p; updateKeys = map fst tu in
      if length updateKeys = 0 then Inl no_operation
      else if sel = ''#'' then
        (if ''default'' \<in> set updateKeys
         then (case map_of tu ''default'' of
                 Some updater \<Rightarrow>
                   operationalMapper E (upd_operation updater) h node (upd_value updater)
               | None \<Rightarrow> Inr (node, h))
         else Inr (node, h))
      else if sel \<in> set updateKeys
        then (case map_of tu sel of
                Some updater \<Rightarrow>
                  operationalMapper E (upd_operation updater) h node (upd_value updater)
              | None \<Rightarrow> Inr (node, h))
      else Inr (node, h))"
| "selectTransform E tu h node (Mapping entries) =
     (case object_assign E h [node] of
        Inl e \<Rightarrow> Inl e
      | Inr (clonedObject, h1) \<Rightarrow> selectLoop E tu h1 node (length h) entries)"
| "selectLoop E tu h node c [] = Inr (Ref c, h)"
| "selectLoop E tu h node c ((key, filteredObject) # rest) =
     (case js_get E h c key of
        Inl e \<Rightarrow> Inl e
      | Inr keyedObject \<Rightarrow>
          if keyedObject = Undefined \<or> keyedObject = Null then Inr (node, h)
          else (case selectTransform E tu h keyedObject filteredObject of
              Inl e \<Rightarrow> Inl e
            | Inr (r, h') \<Rightarrow> (case js_set E h' c key r of
                Inl e \<Rightarrow> Inl e
              | Inr h'' \<Rightarrow> selectLoop E tu h'' node c rest)))"

definition apply_changes :: "env \<Rightarrow> session \<Rightarrow> heap \<Rightarrow> outcome" where
  "apply_changes E s h = selectTransform E (toUpdate s) h (originalObject s) (selectorObject s)"

section \<open>Well-formed stores, valid selectors\<close>

text \<open>A store is well formed when every reference held by a property or an element points
  to a cell of the store and no object has a key twice.\<close>

definition wf_val :: "nat \<Rightarrow> jsval \<Rightarrow> bool" where
  "wf_val n v = (case v of Ref a \<Rightarrow> a < n | _ \<Rightarrow> True)"

definition wf_cell :: "nat \<Rightarrow> hobj \<Rightarrow> bool" where
  "wf_cell n cell = (case cell of
      Obj p ps \<Rightarrow> distinct (map fst ps) \<and> list_all (wf_val n) (map snd ps)
    | Arr xs \<Rightarrow> list_all (\<lambda>x. case x of None \<Rightarrow> True | Some v \<Rightarrow> wf_val n v) xs)"

definition wf_heap :: "heap \<Rightarrow> bool" where
  "wf_heap h = list_all (wf_cell (length h)) h"

text \<open>A selector is an object literal: at every mapping the keys are pairwise different.\<close>

fun valid_selector :: "selector \<Rightarrow> bool"
  and valid_entries :: "(string \<times> selector) list \<Rightarrow> bool"
where
  "valid_selector (Marker p) = True"
| "valid_selector (Mapping entries) = (distinct (map fst entries) \<and> valid_entries entries)"
| "valid_entries [] = True"
| "valid_entries ((k, sub) # rest) = (valid_selector sub \<and> valid_entries rest)"

text \<open>\<^verbatim>\<open>get_prop\<close> is the own property of a value under a key (\<^verbatim>\<open>undefined\<close> when there is
  none). \<open>plain_read ps k\<close> is what a plain object with the own properties \<open>ps\<close> and the
  prototype \<^verbatim>\<open>Object.prototype\<close> gives under the key \<open>k\<close>: the own property if there is one
  and else the property of \<^verbatim>\<open>Object.prototype\<close>.\<close>

definition get_prop :: "heap \<Rightarrow> jsval \<Rightarrow> string \<Rightarrow> jsval" where
  "get_prop h v k = lookup (own_props h v) k"

definition plain_read :: "(string \<times> jsval) list \<Rightarrow> string \<Rightarrow> jsval" where
  "plain_read ps k = (case map_of ps k of
      Some v \<Rightarrow> v
    | None \<Rightarrow> if k = ''__proto__'' then ObjectPrototype
              else (case object_prototype k of Some v \<Rightarrow> v | None \<Rightarrow> Undefined))"

text \<open>The child of a node under a key, as the traversal means it: what a plain object that
  holds the node's own properties gives under the key.\<close>

definition child :: "heap \<Rightarrow> jsval \<Rightarrow> string \<Rightarrow> jsval" where
  "child h node k = plain_read (own_props h node) k"

section \<open>Structural sharing and snapshots\<close>

text \<open>\<open>same_except keys ps ps'\<close>: the property lists \<open>ps\<close> and \<open>ps'\<close> hold the same value
  (for a reference: the same address) under every key outside \<open>keys\<close>.\<close>

definition same_except :: "string list \<Rightarrow> (string \<times> jsval) list \<Rightarrow> (string \<times> jsval) list \<Rightarrow> bool" where
  "same_except keys ps ps' =
     list_all (\<lambda>k. k \<in> set keys \<or> map_of ps' k = map_of ps k) (map fst ps @ map fst ps')"

text \<open>
  \<open>shares n h h' node sel r\<close>: the result \<open>r\<close>, read in the store \<open>h'\<close>, shares with the
  original \<open>node\<close>, read in the store \<open>h\<close>, everything the selector \<open>sel\<close> does not address,
  the key \<^verbatim>\<open>__proto__\<close> apart. At a marker nothing is required (the leaf is addressed). At a
  mapping the result is the original itself, or a plain object (each key once) at an
  address not below \<open>n\<close> whose own properties are those of the original outside the
  selector's keys and \<^verbatim>\<open>__proto__\<close>, and which, under each key of the selector that is an
  own key of the original, shares with the original child what the sub-selector does not
  address.
\<close>

fun shares :: "nat \<Rightarrow> heap \<Rightarrow> heap \<Rightarrow> jsval \<Rightarrow> selector \<Rightarrow> jsval \<Rightarrow> bool"
  and shares_entries ::
    "nat \<Rightarrow> heap \<Rightarrow> heap \<Rightarrow> (string \<times> jsval) list \<Rightarrow> (string \<times> jsval) list
       \<Rightarrow> (string \<times> selector) list \<Rightarrow> bool"
where
  "shares n h h' node (Marker p) r = True"
| "shares n h h' node (Mapping entries) r =
     (r = node \<or>
      (case r of
         Ref c \<Rightarrow> n \<le> c \<and>
           (case heap_get h' c of
              Some (Obj p' ps') \<Rightarrow>
                distinct (map fst ps')
                \<and> same_except (''__proto__'' # map fst entries) (own_props h node) ps'
                \<and> shares_entries n h h' (own_props h node) ps' entries
            | _ \<Rightarrow> False)
       | _ \<Rightarrow> False))"
| "shares_entries n h h' ps ps' [] = True"
| "shares_entries n h h' ps ps' ((k, sub) # rest) =
     ((k = ''__proto__'' \<or> map_of ps k = None
         \<or> shares n h h' (lookup ps k) sub (lookup ps' k))
      \<and> shares_entries n h h' ps ps' rest)"

text \<open>A snapshot is the tree of values reachable from a value through own properties and
  elements, read to a given depth (\<open>None\<close> when the depth does not suffice or a reference
  dangles). Two values are deep-equal when their snapshots are equal.\<close>

datatype tree =
    Leaf jsval
  | ObjT "(string \<times> tree) list"
  | ArrT "tree option list"

fun snapshot :: "nat \<Rightarrow> heap \<Rightarrow> jsval \<Rightarrow> tree option" where
  "snapshot 0 h v = None"
| "snapshot (Suc n) h v = (case v of
      Ref a \<Rightarrow> (case heap_get h a of
          None \<Rightarrow> None
        | Some (Obj p ps) \<Rightarrow>
            map_option ObjT (those (map (\<lambda>(k, x). map_option (Pair k) (snapshot n h x)) ps))
        | Some (Arr xs) \<Rightarrow>
            map_option ArrT (those (map (\<lambda>x. case x of
                                           None \<Rightarrow> Some None
                                         | Some y \<Rightarrow> map_option Some (snapshot n h y)) xs)))
    | _ \<Rightarrow> Some (Leaf v))"

text \<open>Whether a run of the traversal arrives at a marker, that is, calls
  \<^verbatim>\<open>selectTransform\<close> with a selector that is a pointer marker. It follows the run of the
  loop step by step: the read of the child, the recursive call and the assignment.\<close>

fun reaches :: "env \<Rightarrow> ledger \<Rightarrow> heap \<Rightarrow> jsval \<Rightarrow> selector \<Rightarrow> bool"
  and reaches_loop ::
    "env \<Rightarrow> ledger \<Rightarrow> heap \<Rightarrow> jsval \<Rightarrow> addr \<Rightarrow> (string \<times> selector) list \<Rightarrow> bool"
where
  "reaches E tu h node (Marker p) = True"
| "reaches E tu h node (Mapping entries) =
     (case object_assign E h [node] of
        Inl e \<Rightarrow> False
      | Inr (clonedObject, h1) \<Rightarrow> reaches_loop E tu h1 node (length h) entries)"
| "reaches_loop E tu h node c [] = False"
| "reaches_loop E tu h node c ((key, filteredObject) # rest) =
     (case js_get E h c key of
        Inl e \<Rightarrow> False
      | Inr keyedObject \<Rightarrow>
          if keyedObject = Undefined \<or> keyedObject = Null then False
          else reaches E tu h keyedObject filteredObject
            \<or> (case selectTransform E tu h keyedObject filteredObject of
                  Inl e \<Rightarrow> False
                | Inr (r, h') \<Rightarrow> (case js_set E h' c key r of
                    Inl e \<Rightarrow> False
                  | Inr h'' \<Rightarrow> reaches_loop E tu h'' node c rest)))"

section \<open>Environments and stores used in the examples\<close>

text \<open>An environment with some of the standard methods of \<^verbatim>\<open>Array.prototype\<close>, and in which
  every function has the read-only own properties \<^verbatim>\<open>name\<close> and \<^verbatim>\<open>length\<close> and inherits from
  \<^verbatim>\<open>Function.prototype\<close> the methods \<^verbatim>\<open>apply\<close>, \<^verbatim>\<open>bind\<close> and \<^verbatim>\<open>call\<close> and the throwing
  accessors \<^verbatim>\<open>caller\<close> and \<^verbatim>\<open>arguments\<close>.\<close>

definition std_array_proto :: "string \<Rightarrow> jsval option" where
  "std_array_proto k =
     (if k \<in> set [''concat'', ''filter'', ''forEach'', ''indexOf'', ''join'', ''map'', ''pop'',
                   ''push'', ''reduce'', ''slice'', ''splice'']
      then Some (Fun (NativeFn (''Array.prototype.'' @ k))) else None)"

definition std_fn_chain :: "fid \<Rightarrow> string \<Rightarrow> inherited" where
  "std_fn_chain f k =
     (if k = ''name'' then Data (Str []) False
      else if k = ''length'' then Data (Num 0) False
      else if k \<in> set [''caller'', ''arguments''] then Throwing
      else if k \<in> set [''apply'', ''bind'', ''call'']
        then Data (Fun (NativeFn (''Function.prototype.'' @ k))) True
      else Absent)"

definition std_env :: "(fid \<Rightarrow> callback) \<Rightarrow> env" where
  "std_env table = \<lparr>fns = table, array_proto = std_array_proto, fn_chain = std_fn_chain\<rparr>"

text \<open>Callbacks: the identity, one that throws, and one that returns a new one-element
  array holding its argument.\<close>

definition id_fns :: "fid \<Rightarrow> callback" where
  "id_fns f v h = Inr (v, [])"

definition throwing_fns :: "fid \<Rightarrow> callback" where
  "throwing_fns f v h = Inl (Str ''boom'')"

definition wrap_fns :: "fid \<Rightarrow> callback" where
  "wrap_fns f v h = Inr (Ref (length h), [Arr [Some v]])"

definition id_env :: env where
  "id_env = std_env id_fns"

definition throwing_env :: env where
  "throwing_env = std_env throwing_fns"

definition wrap_env :: env where
  "wrap_env = std_env wrap_fns"

text \<open>\<^verbatim>\<open>{ p: 1, q: 2 }\<close> with the selector \<^verbatim>\<open>{ p: '#/a', q: '#/b' }\<close>.\<close>

definition two_leaves_heap :: heap where
  "two_leaves_heap = [Obj ObjectPrototype [(''p'', Num 1), (''q'', Num 2)]]"

definition two_leaves_selector :: selector where
  "two_leaves_selector = Mapping [(''p'', Marker ''/a''), (''q'', Marker ''/b'')]"

text \<open>\<^verbatim>\<open>{ a: 1, '0': 2 }\<close> and the array \<^verbatim>\<open>[7, 8]\<close>; \<^verbatim>\<open>{ a: 1 }\<close> and the array
  \<^verbatim>\<open>new Array(3)\<close>, which has length 3 and no element.\<close>

definition merge_heap :: heap where
  "merge_heap = [Obj ObjectPrototype [(''a'', Num 1), (''0'', Num 2)], Arr [Some (Num 7), Some (Num 8)]]"

definition holes_heap :: heap where
  "holes_heap = [Obj ObjectPrototype [(''a'', Num 1)], Arr [None, None, None]]"

text \<open>The object of the end-to-end example,
  \<^verbatim>\<open>{ person: { name: 'John Cena', address: { permanent: 'Nepal', temporary: 'China' } } }\<close>,
  at address 0, its selector \<^verbatim>\<open>{ person: { address: { permanent: '#' } } }\<close>, and the
  expected result as a tree.\<close>

definition person_heap :: heap where
  "person_heap =
     [Obj ObjectPrototype [(''person'', Ref 1)],
      Obj ObjectPrototype [(''name'', Str ''John Cena''), (''address'', Ref 2)],
      Obj ObjectPrototype [(''permanent'', Str ''Nepal''), (''temporary'', Str ''China'')]]"

definition person_selector :: selector where
  "person_selector =
     Mapping [(''person'', Mapping [(''address'', Mapping [(''permanent'', Marker [])])])]"

definition person_expected :: tree where
  "person_expected =
     ObjT [(''person'', ObjT [(''name'', Leaf (Str ''John Cena'')),
                              (''address'', ObjT [(''permanent'', Leaf (Str ''Holy land'')),
                                                  (''temporary'', Leaf (Str ''China''))])])]"

definition person_result_heap :: heap where
  "person_result_heap = person_heap @
     [Obj ObjectPrototype [(''person'', Ref 4)],
      Obj ObjectPrototype [(''name'', Str ''John Cena''), (''address'', Ref 5)],
      Obj ObjectPrototype [(''permanent'', Str ''Holy land''), (''temporary'', Str ''China'')]]"

text \<open>\<^verbatim>\<open>{ a: { x: 1, y: { w: 0 } }, b: { z: 2 } }\<close> with the selector \<^verbatim>\<open>{ a: { x: '#' } }\<close>, and
  the ledger after \<^verbatim>\<open>set(5)\<close>.\<close>

definition sharing_heap :: heap where
  "sharing_heap =
     [Obj ObjectPrototype [(''a'', Ref 1), (''b'', Ref 2)],
      Obj ObjectPrototype [(''x'', Num 1), (''y'', Ref 3)],
      Obj ObjectPrototype [(''z'', Num 2)],
      Obj ObjectPrototype [(''w'', Num 0)]]"

definition sharing_selector :: selector where
  "sharing_selector = Mapping [(''a'', Mapping [(''x'', Marker [])])]"

definition set_five :: ledger where
  "set_five = [(''default'', Updater (Num 5) OpSet)]"



text \<open>\<^verbatim>\<open>{ a: 1 }\<close> with the selector \<^verbatim>\<open>{ a: '#', b: '#' }\<close>, whose key \<^verbatim>\<open>b\<close> the object lacks.\<close>

definition missing_heap :: heap where
  "missing_heap = [Obj ObjectPrototype [(''a'', Num 1)]]"

definition missing_selector_entries :: "(string \<times> selector) list" where
  "missing_selector_entries = [(''a'', Marker []), (''b'', Marker [])]"

text \<open>\<^verbatim>\<open>{ p: 5 }\<close> with the selector \<^verbatim>\<open>{ p: '#' }\<close>.\<close>

definition single_heap :: heap where
  "single_heap = [Obj ObjectPrototype [(''p'', Num 5)]]"

definition single_selector :: selector where
  "single_selector = Mapping [(''p'', Marker [])]"

text \<open>Objects with an own property \<^verbatim>\<open>__proto__\<close>, as \<^verbatim>\<open>JSON.parse\<close> or a computed key makes
  them: \<^verbatim>\<open>{ "__proto__": X, "a": 1 }\<close> where \<open>X\<close> is \<^verbatim>\<open>{ "__proto__": 7 }\<close>;
  \<^verbatim>\<open>{ "__proto__": 5, "a": 1 }\<close>; and \<^verbatim>\<open>{ ['__proto__']: f, name: 'x' }\<close> for a function
  \<open>f\<close>.\<close>

definition nested_proto_heap :: heap where
  "nested_proto_heap =
     [Obj ObjectPrototype [(''__proto__'', Ref 1), (''a'', Num 1)],
      Obj ObjectPrototype [(''__proto__'', Num 7)]]"


definition fn_proto_heap :: heap where
  "fn_proto_heap = [Obj ObjectPrototype [(''__proto__'', Fun (UserFn 0)), (''name'', Str ''x'')]]"

text \<open>\<^verbatim>\<open>{ a: 1 }\<close> and \<^verbatim>\<open>{ b: 5 }\<close> with the selector \<^verbatim>\<open>{ ['__proto__']: '#', b: '#' }\<close>
  (its key \<^verbatim>\<open>__proto__\<close> is an own property) and the ledger after \<^verbatim>\<open>set\<close> of the second
  object.\<close>

definition proto_key_heap :: heap where
  "proto_key_heap = [Obj ObjectPrototype [(''a'', Num 1)], Obj ObjectPrototype [(''b'', Num 5)]]"

definition proto_key_entries :: "(string \<times> selector) list" where
  "proto_key_entries = [(''__proto__'', Marker []), (''b'', Marker [])]"

definition set_second :: ledger where
  "set_second = [(''default'', Updater (Ref 1) OpSet)]"


text \<open>\<^verbatim>\<open>{ "__proto__": { "b": 1 }, "a": 1 }\<close>, an object whose own property \<^verbatim>\<open>__proto__\<close> holds
  another object.\<close>

definition inherit_heap :: heap where
  "inherit_heap =
     [Obj ObjectPrototype [(''__proto__'', Ref 1), (''a'', Num 1)],
      Obj ObjectPrototype [(''b'', Num 1)]]"



text \<open>\<^verbatim>\<open>{ ['__proto__']: f, name: 'x' }\<close> for a function \<open>f\<close> and the array \<^verbatim>\<open>[7]\<close>; and
  \<^verbatim>\<open>{ ['__proto__']: arr, a: 1 }\<close> where \<open>arr\<close> is the array \<^verbatim>\<open>[7]\<close>.\<close>

definition fn_proto_array_heap :: heap where
  "fn_proto_array_heap =
     [Obj ObjectPrototype [(''__proto__'', Fun (UserFn 0)), (''name'', Str ''x'')],
      Arr [Some (Num 7)]]"

definition array_proto_heap :: heap where
  "array_proto_heap =
     [Obj ObjectPrototype [(''__proto__'', Ref 1), (''a'', Num 1)], Arr [Some (Num 7)]]"

section \<open>Keys, property lists and prefixes of the store\<close>

lemma digit_val_digit: "m < 10 \<Longrightarrow> digit_val (digits10 ! m) = m"
proof -
  assume "m < 10"
  then have "m \<in> {0,1,2,3,4,5,6,7,8,9}" by auto
  then show ?thesis
    by (auto simp: digit_val_def digits10_def)
qed

lemma int_of_digits_snoc: "int_of_digits (s @ [c]) = 10 * int_of_digits s + int (digit_val c)"
  by (simp add: int_of_digits_def)

lemma int_of_digits_show_nat: "int_of_digits (show_nat n) = int n"
proof (induction n rule: show_nat.induct)
  case (1 n)
  show ?case
  proof (cases "n < 10")
    case True
    then show ?thesis
      by (subst show_nat.simps) (simp add: int_of_digits_def digit_val_digit)
  next
    case False
    then have "int_of_digits (show_nat n) = 10 * int (n div 10) + int (n mod 10)"
      using 1 by (subst show_nat.simps) (simp add: int_of_digits_snoc digit_val_digit)
    then show ?thesis by (simp add: zdiv_int zmod_int)
  qed
qed

lemma show_nat_inj: "show_nat m = show_nat n \<Longrightarrow> m = n"
  by (metis int_of_digits_show_nat of_nat_eq_iff)

lemma zip_upt_mem: "(i, x) \<in> set (zip [0..<length xs] xs) \<longleftrightarrow> i < length xs \<and> x = xs ! i"
  by (force simp: in_set_zip)

lemma distinct_index_keys: "distinct (map fst (index_props xs))"
proof -
  let ?F = "filter (\<lambda>(i, x). x \<noteq> None) (zip [0..<length xs] xs)"
  have d1: "distinct (map fst ?F)"
    by (rule distinct_map_filter) simp
  have "distinct (map show_nat (map fst ?F))"
  proof (rule iffD2[OF distinct_map], intro conjI)
    show "distinct (map fst ?F)" by (rule d1)
    show "inj_on show_nat (set (map fst ?F))"
      by (rule inj_onI) (rule show_nat_inj)
  qed
  moreover have "map fst (index_props xs) = map show_nat (map fst ?F)"
    by (simp add: index_props_def case_prod_beta comp_def)
  ultimately show ?thesis by simp
qed

lemma index_props_mem:
  "(k, v) \<in> set (index_props xs) \<longleftrightarrow> (\<exists>i<length xs. xs ! i = Some v \<and> k = show_nat i)"
proof
  assume "(k, v) \<in> set (index_props xs)"
  then obtain i x where ix: "(i, x) \<in> set (zip [0..<length xs] xs)" and x: "x \<noteq> None"
    and kv: "k = show_nat i" "v = the x"
    by (auto simp: index_props_def)
  from ix have "i < length xs" "x = xs ! i" by (simp_all add: zip_upt_mem)
  then show "\<exists>i<length xs. xs ! i = Some v \<and> k = show_nat i"
    using x kv by auto
next
  assume "\<exists>i<length xs. xs ! i = Some v \<and> k = show_nat i"
  then obtain i where i: "i < length xs" "xs ! i = Some v" "k = show_nat i" by blast
  then have "(i, Some v) \<in> set (zip [0..<length xs] xs)" by (simp add: zip_upt_mem)
  then have "(i, Some v) \<in> set (filter (\<lambda>(i, x). x \<noteq> None) (zip [0..<length xs] xs))"
    by simp
  then have "(\<lambda>(i, x). (show_nat i, the x)) (i, Some v) \<in> set (index_props xs)"
    unfolding index_props_def set_map by (rule imageI)
  then show "(k, v) \<in> set (index_props xs)" using i by simp
qed

lemma map_of_index_props:
  "i < length xs \<Longrightarrow> xs ! i = Some v \<Longrightarrow> map_of (index_props xs) (show_nat i) = Some v"
proof -
  assume "i < length xs" "xs ! i = Some v"
  then have "(show_nat i, v) \<in> set (index_props xs)" by (auto simp: index_props_mem)
  then show ?thesis using distinct_index_keys[of xs] by (simp add: map_of_eq_Some_iff)
qed

lemma index_props_key:
  "k \<in> fst ` set (index_props xs) \<longleftrightarrow> (\<exists>i<length xs. xs ! i \<noteq> None \<and> k = show_nat i)"
proof
  assume "k \<in> fst ` set (index_props xs)"
  then obtain v where "(k, v) \<in> set (index_props xs)" by auto
  then show "\<exists>i<length xs. xs ! i \<noteq> None \<and> k = show_nat i"
    by (auto simp: index_props_mem)
next
  assume "\<exists>i<length xs. xs ! i \<noteq> None \<and> k = show_nat i"
  then obtain i v where "i < length xs" "xs ! i = Some v" "k = show_nat i" by auto
  then have "(k, v) \<in> set (index_props xs)" by (auto simp: index_props_mem)
  then show "k \<in> fst ` set (index_props xs)" by force
qed

lemma map_of_foldl_update:
  "map_of (foldl (\<lambda>ps (k, v). AList.update k v ps) t xs) = map_of t ++ map_of (rev xs)"
proof (induction xs arbitrary: t)
  case Nil
  then show ?case by simp
next
  case (Cons x xs)
  obtain k v where x: "x = (k, v)" by (cases x)
  show ?case
    by (auto simp: x Cons.IH update_conv' map_add_def fun_eq_iff split: option.splits)
qed

lemma map_of_rev_distinct: "distinct (map fst xs) \<Longrightarrow> map_of (rev xs) = map_of xs"
  by (rule map_of_inject_set[THEN iffD2]) (simp_all add: rev_map[symmetric] )

lemma prefixI_nth:
  assumes "length h \<le> length h'" and "\<And>a. a < length h \<Longrightarrow> h' ! a = h ! a"
  shows "prefix h h'"
proof -
  have "take (length h) h' = h"
    using assms by (intro nth_equalityI) auto
  then show ?thesis by (metis take_is_prefix)
qed

lemma prefix_nth: "prefix h h' \<Longrightarrow> a < length h \<Longrightarrow> h' ! a = h ! a"
  by (auto simp: prefix_def nth_append)

lemma prefix_heap_get: "prefix h h' \<Longrightarrow> heap_get h a = Some cell \<Longrightarrow> heap_get h' a = Some cell"
  by (auto simp: heap_get_def prefix_def nth_append split: if_splits)

section \<open>Reading and assigning properties\<close>

lemma chain_get_error: "chain_get E h rp n holder k = Inl e \<Longrightarrow> e = type_error"
  by (induction n arbitrary: holder)
     (auto split: jsval.splits option.splits hobj.splits inherited.splits)

lemma js_get_error:
  assumes "js_get E h c k = Inl e"
  shows "e = type_error"
proof (cases "heap_get h c")
  case None
  then show ?thesis using assms by (simp add: js_get_def)
next
  case (Some cell)
  show ?thesis
  proof (cases cell)
    case (Obj p ps)
    then have "chain_get E h p (Suc (Suc (length h))) (Ref c) k = Inl e"
      using assms Some by (simp only: js_get_def option.case hobj.case)
    then show ?thesis by (rule chain_get_error)
  next
    case (Arr xs)
    then show ?thesis using assms Some by (simp add: js_get_def)
  qed
qed

lemma js_get_own:
  "heap_get h c = Some (Obj p ps) \<Longrightarrow> map_of ps k = Some v \<Longrightarrow> js_get E h c k = Inr v"
  by (simp add: js_get_def)

lemma js_get_plain:
  "heap_get h c = Some (Obj ObjectPrototype ps) \<Longrightarrow>
   js_get E h c k = Inr (case map_of ps k of
       Some v \<Rightarrow> v
     | None \<Rightarrow> if k = ''__proto__'' then ObjectPrototype
               else (case object_prototype k of Some v \<Rightarrow> v | None \<Rightarrow> Undefined))"
  by (simp add: js_get_def split: option.splits)

lemma chain_find_ProtoSetter: "chain_find E h n holder k = ProtoSetter \<Longrightarrow> k = ''__proto__''"
  by (induction n arbitrary: holder)
     (auto split: jsval.splits option.splits hobj.splits inherited.splits if_splits)

lemma js_set_error: "js_set E h c k v = Inl e \<Longrightarrow> e = type_error"
  by (auto simp: js_set_def split: option.splits hobj.splits found.splits if_splits)

lemma js_set_length: "js_set E h c k v = Inr h' \<Longrightarrow> length h' = length h"
  by (auto simp: js_set_def split: option.splits hobj.splits found.splits if_splits)

lemma js_set_other: "js_set E h c k v = Inr h' \<Longrightarrow> a \<noteq> c \<Longrightarrow> h' ! a = h ! a"
  by (auto simp: js_set_def split: option.splits hobj.splits found.splits if_splits)

lemma js_set_own:
  "heap_get h c = Some (Obj p ps) \<Longrightarrow> map_of ps k \<noteq> None
     \<Longrightarrow> js_set E h c k v = Inr (h[c := Obj p (AList.update k v ps)])"
  by (simp add: js_set_def)

lemma js_set_plain:
  "heap_get h c = Some (Obj ObjectPrototype ps) \<Longrightarrow> k \<noteq> ''__proto__''
     \<Longrightarrow> js_set E h c k v = Inr (h[c := Obj ObjectPrototype (AList.update k v ps)])"
  by (simp add: js_set_def)

lemma heap_get_update: "c < length h \<Longrightarrow> heap_get (h[c := cell]) c = Some cell"
  by (simp add: heap_get_def)

lemma heap_get_lt: "heap_get h c = Some cell \<Longrightarrow> c < length h"
  by (simp add: heap_get_def split: if_splits)

lemma js_set_cell:
  assumes "js_set E h c k v = Inr h'" and "heap_get h c = Some (Obj p ps)"
  shows "\<exists>p' ps'. heap_get h' c = Some (Obj p' ps')
      \<and> (k \<noteq> ''__proto__'' \<longrightarrow> p' = p \<and> ps' = AList.update k v ps)
      \<and> (k = ''__proto__'' \<longrightarrow> ps' = ps \<or> (p' = p \<and> ps' = AList.update k v ps))"
proof -
  have c: "c < length h" using assms(2) by (rule heap_get_lt)
  show ?thesis
  proof (cases "map_of ps k \<noteq> None")
    case True
    then have "h' = h[c := Obj p (AList.update k v ps)]"
      using assms by (simp add: js_set_def)
    then show ?thesis using c by (simp add: heap_get_update)
  next
    case False
    show ?thesis
    proof (cases "chain_find E h (Suc (Suc (length h))) p k")
      case ProtoSetter
      then have k: "k = ''__proto__''" by (rule chain_find_ProtoSetter)
      have "h' = h \<or> h' = h[c := Obj v ps]"
        using assms False ProtoSetter by (auto simp: js_set_def split: if_splits)
      then show ?thesis using c k assms(2) by (auto simp: heap_get_update)
    next
      case NotFound
      then have "h' = h[c := Obj p (AList.update k v ps)]"
        using assms False by (simp add: js_set_def)
      then show ?thesis using c by (simp add: heap_get_update)
    next
      case Writable
      then have "h' = h[c := Obj p (AList.update k v ps)]"
        using assms False by (simp add: js_set_def)
      then show ?thesis using c by (simp add: heap_get_update)
    next
      case ReadOnly
      then show ?thesis using assms False by (simp add: js_set_def)
    next
      case ThrowingSetter
      then show ?thesis using assms False by (simp add: js_set_def)
    qed
  qed
qed

lemma js_set_frame:
  assumes "js_set E h c k v = Inr h'" and "prefix h0 h" and "length h0 \<le> c"
  shows "prefix h0 h'"
proof (rule prefixI_nth)
  show "length h0 \<le> length h'"
    using assms(1,2) by (simp add: js_set_length prefix_length_le)
  show "h' ! a = h0 ! a" if "a < length h0" for a
    using that assms js_set_other[OF assms(1), of a] by (simp add: prefix_nth)
qed

lemma assign_error: "assign_props E h c props = Inl e \<Longrightarrow> e = type_error"
proof (induction props arbitrary: h)
  case Nil
  then show ?case by simp
next
  case (Cons x props)
  obtain k v where x: "x = (k, v)" by (cases x)
  show ?case
  proof (cases "js_set E h c k v")
    case (Inl e')
    then show ?thesis using Cons.prems x by (auto dest: js_set_error)
  next
    case (Inr h1)
    then show ?thesis using Cons.prems x by (auto intro: Cons.IH)
  qed
qed

lemma assign_frame:
  "assign_props E h c props = Inr h' \<Longrightarrow> length h' = length h \<and> (\<forall>a. a \<noteq> c \<longrightarrow> h' ! a = h ! a)"
proof (induction props arbitrary: h)
  case Nil
  then show ?case by simp
next
  case (Cons x props)
  obtain k v where x: "x = (k, v)" by (cases x)
  from Cons.prems x obtain h1 where s: "js_set E h c k v = Inr h1"
    and r: "assign_props E h1 c props = Inr h'"
    by (auto split: sum.splits)
  from Cons.IH[OF r] js_set_length[OF s] js_set_other[OF s] show ?case by auto
qed

lemma assign_cell:
  "assign_props E h c props = Inr h' \<Longrightarrow> heap_get h c = Some (Obj p ps)
     \<Longrightarrow> distinct (map fst ps)
     \<Longrightarrow> \<exists>p' ps'. heap_get h' c = Some (Obj p' ps') \<and> distinct (map fst ps')
           \<and> (\<forall>k. k \<noteq> ''__proto__'' \<longrightarrow> map_of ps' k = (map_of ps ++ map_of (rev props)) k)"
proof (induction props arbitrary: h p ps)
  case Nil
  then show ?case by auto
next
  case (Cons x props)
  obtain k0 v0 where x: "x = (k0, v0)" by (cases x)
  from Cons.prems(1) x obtain h1 where s: "js_set E h c k0 v0 = Inr h1"
    and r: "assign_props E h1 c props = Inr h'"
    by (auto split: sum.splits)
  from js_set_cell[OF s Cons.prems(2)] obtain p1 ps1 where
    cell1: "heap_get h1 c = Some (Obj p1 ps1)"
    and shape: "ps1 = ps \<and> k0 = ''__proto__'' \<or> ps1 = AList.update k0 v0 ps"
    by auto
  have d1: "distinct (map fst ps1)"
    using shape Cons.prems(3) by (auto simp: distinct_update)
  have m1: "map_of ps1 k = ((map_of ps)(k0 \<mapsto> v0)) k" if "k \<noteq> ''__proto__''" for k
    using shape that by (auto simp: update_conv')
  from Cons.IH[OF r cell1 d1] obtain p' ps' where
    cell': "heap_get h' c = Some (Obj p' ps')" and d': "distinct (map fst ps')"
    and m': "\<forall>k. k \<noteq> ''__proto__'' \<longrightarrow> map_of ps' k = (map_of ps1 ++ map_of (rev props)) k"
    by blast
  have "map_of ps' k = (map_of ps ++ map_of (rev (x # props))) k" if "k \<noteq> ''__proto__''" for k
    using m' m1[OF that] that by (auto simp: x map_add_def split: option.splits)
  then show ?case using cell' d' by blast
qed

lemma assign_plain:
  "''__proto__'' \<notin> fst ` set props \<Longrightarrow> heap_get h c = Some (Obj ObjectPrototype ps)
     \<Longrightarrow> assign_props E h c props
         = Inr (h[c := Obj ObjectPrototype (foldl (\<lambda>ps (k, v). AList.update k v ps) ps props)])"
proof (induction props arbitrary: h ps)
  case Nil
  then have "c < length h" "h ! c = Obj ObjectPrototype ps"
    by (auto simp: heap_get_def split: if_splits)
  then have "h[c := Obj ObjectPrototype ps] = h" by (metis list_update_id)
  then show ?case by simp
next
  case (Cons x props)
  obtain k v where x: "x = (k, v)" by (cases x)
  have k: "k \<noteq> ''__proto__''" using Cons.prems(1) x by auto
  have c: "c < length h" using Cons.prems(2) by (rule heap_get_lt)
  let ?h1 = "h[c := Obj ObjectPrototype (AList.update k v ps)]"
  have s: "js_set E h c k v = Inr ?h1"
    using Cons.prems(2) k by (rule js_set_plain)
  have cell1: "heap_get ?h1 c = Some (Obj ObjectPrototype (AList.update k v ps))"
    using c by (rule heap_get_update)
  have "assign_props E ?h1 c props
      = Inr (?h1[c := Obj ObjectPrototype
           (foldl (\<lambda>ps (k, v). AList.update k v ps) (AList.update k v ps) props)])"
    using Cons.prems(1) cell1 by (intro Cons.IH) auto
  then show ?case using s x by simp
qed

lemma object_assign_error: "object_assign E h srcs = Inl e \<Longrightarrow> e = type_error"
  by (auto simp: object_assign_def split: sum.splits dest: assign_error)

lemma object_assign_result:
  assumes "object_assign E h srcs = Inr (r, h')"
  shows "r = Ref (length h) \<and> length h' = Suc (length h) \<and> prefix h h'
    \<and> (\<exists>p' ps'. heap_get h' (length h) = Some (Obj p' ps') \<and> distinct (map fst ps')
          \<and> (\<forall>k. k \<noteq> ''__proto__''
                \<longrightarrow> map_of ps' k = map_of (rev (concat (map (own_props h) srcs))) k))"
proof -
  let ?h1 = "h @ [Obj ObjectPrototype []]"
  let ?props = "concat (map (own_props h) srcs)"
  from assms have run: "assign_props E ?h1 (length h) ?props = Inr h'" and r: "r = Ref (length h)"
    by (auto simp: object_assign_def split: sum.splits)
  from assign_frame[OF run] have len: "length h' = Suc (length h)"
    and same: "\<forall>a. a \<noteq> length h \<longrightarrow> h' ! a = ?h1 ! a" by auto
  have pre: "prefix h h'"
    using len same by (intro prefixI_nth) (auto simp: nth_append)
  have cell: "heap_get ?h1 (length h) = Some (Obj ObjectPrototype [])"
    by (simp add: heap_get_def)
  from assign_cell[OF run cell] obtain p' ps' where
    "heap_get h' (length h) = Some (Obj p' ps')" "distinct (map fst ps')"
    "\<forall>k. k \<noteq> ''__proto__'' \<longrightarrow> map_of ps' k = (map_of [] ++ map_of (rev ?props)) k"
    by auto
  then show ?thesis using r len pre by auto
qed

lemma object_assign_plain:
  assumes "''__proto__'' \<notin> fst ` set (concat (map (own_props h) srcs))"
  shows "object_assign E h srcs = Inr (Ref (length h),
      h @ [Obj ObjectPrototype
             (foldl (\<lambda>ps (k, v). AList.update k v ps) [] (concat (map (own_props h) srcs)))])"
proof -
  have cell: "heap_get (h @ [Obj ObjectPrototype []]) (length h) = Some (Obj ObjectPrototype [])"
    by (simp add: heap_get_def)
  show ?thesis
    unfolding object_assign_def assign_plain[OF assms cell] by simp
qed

section \<open>The store only grows\<close>

lemma delete_steps_prefix:
  "foldl (delete_step old key) (acc, h) keys = (r, h') \<Longrightarrow> prefix h h'"
proof (induction keys arbitrary: acc h)
  case Nil
  then show ?case by simp
next
  case (Cons k keys)
  obtain acc1 h1 where st: "delete_step old key (acc, h) k = (acc1, h1)"
    by (cases "delete_step old key (acc, h) k")
  then have "prefix h h1"
    by (auto simp: delete_step_def alloc_def split: if_splits)
  moreover have "prefix h1 h'"
    using Cons.prems st by (auto intro: Cons.IH)
  ultimately show ?case by (rule prefix_order.trans)
qed

lemma deleteOp_prefix: "deleteOp h old key = Inr (r, h') \<Longrightarrow> prefix h h'"
proof -
  assume run: "deleteOp h old key = Inr (r, h')"
  have step: "prefix h h'"
    if "foldl (delete_step old key) (Ref (length h), h @ [Obj ObjectPrototype []]) keys = (r, h')"
    for keys
  proof -
    have "prefix (h @ [Obj ObjectPrototype []]) h'" using that by (rule delete_steps_prefix)
    then show ?thesis by (metis append_prefixD)
  qed
  show ?thesis
    using run
    by (auto simp: deleteOp_def alloc_def split: if_splits sum.splits intro: step)
qed

lemma merge_prefix: "merge E h old payload = Inr (r, h') \<Longrightarrow> prefix h h'"
  by (auto simp: merge_def split: if_splits sum.splits dest: object_assign_result)

lemma pipe_prefix: "pipe E h old payload = Inr (r, h') \<Longrightarrow> prefix h h'"
  by (auto simp: pipe_def call_def split: if_splits sum.splits jsval.splits)

lemma operationalMapper_prefix:
  "operationalMapper E operation h old payload = Inr (r, h') \<Longrightarrow> prefix h h'"
proof (cases operation)
  case OpDelete
  assume "operationalMapper E operation h old payload = Inr (r, h')"
  then show ?thesis
    using OpDelete by (auto simp: operationalMapper_def dest: deleteOp_prefix)
next
  case OpPipe
  assume "operationalMapper E operation h old payload = Inr (r, h')"
  then show ?thesis
    using OpPipe by (auto simp: operationalMapper_def dest: pipe_prefix)
next
  case OpMerge
  assume "operationalMapper E operation h old payload = Inr (r, h')"
  then show ?thesis
    using OpMerge by (auto simp: operationalMapper_def dest: merge_prefix)
qed (auto simp: operationalMapper_def set_op_def append_op_def extend_op_def alloc_def
          split: if_splits)

lemma select_frame:
  "(selectTransform E tu h node sel = Inr (r, h') \<longrightarrow> prefix h h')"
  "(selectLoop E tu h node c es = Inr (r, h') \<longrightarrow> c < length h \<longrightarrow>
      length h \<le> length h' \<and> (\<forall>a<length h. a \<noteq> c \<longrightarrow> h' ! a = h ! a))"
proof (induction E tu h node sel and E tu h node c es arbitrary: r h' and r h'
    rule: selectTransform_selectLoop.induct)
  case (1 E tu h node p)
  show ?case
    by (auto simp: Let_def split: if_splits option.splits dest: operationalMapper_prefix)
next
  case (2 E tu h node entries)
  show ?case
  proof
    assume run: "selectTransform E tu h node (Mapping entries) = Inr (r, h')"
    then obtain cl h1 where oa: "object_assign E h [node] = Inr (cl, h1)"
      and loop: "selectLoop E tu h1 node (length h) entries = Inr (r, h')"
      by (auto split: sum.splits)
    from object_assign_result[OF oa] have len1: "length h1 = Suc (length h)"
      and p1: "prefix h h1" by auto
    have "length h1 \<le> length h' \<and> (\<forall>a<length h1. a \<noteq> length h \<longrightarrow> h' ! a = h1 ! a)"
      using 2[OF oa refl] loop len1 by simp
    then show "prefix h h'"
      using len1 p1 by (intro prefixI_nth) (auto simp: prefix_nth)
  qed
next
  case (3 E tu h node c)
  then show ?case by simp
next
  case (4 E tu h node c key filteredObject rest)
  show ?case
  proof (intro impI)
    assume run: "selectLoop E tu h node c ((key, filteredObject) # rest) = Inr (r, h')"
      and c: "c < length h"
    from run obtain ko where get: "js_get E h c key = Inr ko"
      by (auto split: sum.splits)
    show "length h \<le> length h' \<and> (\<forall>a<length h. a \<noteq> c \<longrightarrow> h' ! a = h ! a)"
    proof (cases "ko = Undefined \<or> ko = Null")
      case True
      then show ?thesis using run get by auto
    next
      case False
      then obtain r1 h1 h2 where
        rec: "selectTransform E tu h ko filteredObject = Inr (r1, h1)" and
        st: "js_set E h1 c key r1 = Inr h2" and
        rest: "selectLoop E tu h2 node c rest = Inr (r, h')"
        using run get by (auto split: sum.splits)
      have p1: "prefix h h1"
        using 4(1)[OF get False] rec by simp
      then have len: "length h \<le> length h1" by (simp add: prefix_length_le)
      have len2: "length h2 = length h1" using st by (rule js_set_length)
      have "length h2 \<le> length h' \<and> (\<forall>a<length h2. a \<noteq> c \<longrightarrow> h' ! a = h2 ! a)"
        using 4(2)[OF get False rec refl st] rest c len len2 by simp
      then show ?thesis
        using len len2 p1 js_set_other[OF st] by (auto simp: prefix_nth)
    qed
  qed
qed

section \<open>What the operations and the traversal throw\<close>

lemma typeof_function: "typeof v = ''function'' \<Longrightarrow> \<exists>f. v = Fun f"
  by (cases v) (simp_all add: typeof_def)

lemma no_operation_not_type_error: "no_operation \<noteq> type_error"
  by (simp add: no_operation_def type_error_def)

lemma merge_throws: "merge E h old payload = Inl e \<Longrightarrow> e = type_error"
  by (auto simp: merge_def object_keys_def split: if_splits dest: object_assign_error)

lemma deleteOp_returns: "\<exists>r h'. deleteOp h old key = Inr (r, h')"
proof -
  have "\<exists>r h'. foldl (delete_step old key) st keys = (r, h')" for st keys
    by (cases "foldl (delete_step old key) st keys") simp
  then show ?thesis
    by (auto simp: deleteOp_def object_keys_def alloc_def typeof_def)
qed

lemma pipe_throws:
  "pipe E h old payload = Inl e \<Longrightarrow> \<exists>f v. payload = Fun f \<and> fns E f old h = Inl v \<and> e = Thrown v"
  by (auto simp: pipe_def call_def split: if_splits sum.splits dest!: typeof_function)

lemma operationalMapper_throws:
  "operationalMapper E operation h old payload = Inl e \<Longrightarrow> (\<exists>v. e = Thrown v) \<or> e = type_error"
proof (cases operation)
  case OpMerge
  assume "operationalMapper E operation h old payload = Inl e"
  then show ?thesis using OpMerge
    by (auto simp: operationalMapper_def dest: merge_throws)
next
  case OpDelete
  assume "operationalMapper E operation h old payload = Inl e"
  then show ?thesis using OpDelete deleteOp_returns[of h old payload]
    by (auto simp: operationalMapper_def)
next
  case OpPipe
  assume "operationalMapper E operation h old payload = Inl e"
  then show ?thesis using OpPipe
    by (auto simp: operationalMapper_def dest: pipe_throws)
qed (auto simp: operationalMapper_def set_op_def append_op_def extend_op_def alloc_def split: if_splits)

lemma select_throws:
  "(selectTransform E tu h node sel = Inl e
      \<longrightarrow> (e = no_operation \<and> tu = []) \<or> (\<exists>v. e = Thrown v) \<or> e = type_error)"
  "(selectLoop E tu h node c es = Inl e
      \<longrightarrow> (e = no_operation \<and> tu = []) \<or> (\<exists>v. e = Thrown v) \<or> e = type_error)"
proof (induction E tu h node sel and E tu h node c es
    rule: selectTransform_selectLoop.induct)
  case (1 E tu h node p)
  show ?case
    by (auto simp: Let_def split: if_splits option.splits dest: operationalMapper_throws)
next
  case (2 E tu h node entries)
  show ?case
  proof (cases "object_assign E h [node]")
    case (Inl e')
    then show ?thesis by (auto dest: object_assign_error)
  next
    case (Inr res)
    obtain cl h1 where res: "res = (cl, h1)" by (cases res)
    show ?thesis using 2[OF Inr[unfolded res] refl] Inr res by simp
  qed
next
  case (3 E tu h node c)
  show ?case by simp
next
  case (4 E tu h node c key filteredObject rest)
  show ?case
  proof
    assume run: "selectLoop E tu h node c ((key, filteredObject) # rest) = Inl e"
    show "(e = no_operation \<and> tu = []) \<or> (\<exists>v. e = Thrown v) \<or> e = type_error"
    proof (cases "js_get E h c key")
      case (Inl e')
      then show ?thesis using run by (auto dest: js_get_error)
    next
      case get: (Inr ko)
      from run get have nn: "\<not> (ko = Undefined \<or> ko = Null)"
        by (auto split: if_splits)
      show ?thesis
      proof (cases "selectTransform E tu h ko filteredObject")
        case (Inl e')
        then have "e' = e" using run nn get by auto
        then show ?thesis using 4(1)[OF get nn] Inl by simp
      next
        case (Inr res)
        obtain r1 h1 where res: "res = (r1, h1)" by (cases res)
        show ?thesis
        proof (cases "js_set E h1 c key r1")
          case (Inl e')
          then show ?thesis using run nn get Inr res by (auto dest: js_set_error)
        next
          case st: (Inr h2)
          have "selectLoop E tu h2 node c rest = Inl e"
            using run nn get Inr res st by auto
          then show ?thesis using 4(2)[OF get nn Inr[unfolded res] refl st] by simp
        qed
      qed
    qed
  qed
qed

section \<open>Property lists of well-formed stores\<close>

lemma set_ordered: "set (ordered ps) = set ps"
  by (auto simp: ordered_def)

lemma distinct_ordered: "distinct (map fst ps) \<Longrightarrow> distinct (map fst (ordered ps))"
proof -
  assume d: "distinct (map fst ps)"
  have 1: "distinct (map fst (sort_key (\<lambda>p. int_of_digits (fst p)) (filter (\<lambda>p. is_index (fst p)) ps)))"
    using d by (simp add: distinct_map inj_on_def) 
  have 2: "distinct (map fst (filter (\<lambda>p. \<not> is_index (fst p)) ps))"
    using d by (simp add: distinct_map_filter)
  show ?thesis
    unfolding ordered_def using 1 2 by auto
qed

lemma map_of_ordered: "distinct (map fst ps) \<Longrightarrow> map_of (ordered ps) = map_of ps"
  by (rule map_of_inject_set[THEN iffD2]) (simp_all add: distinct_ordered set_ordered)

lemma wf_heap_cell: "wf_heap h \<Longrightarrow> heap_get h a = Some cell \<Longrightarrow> wf_cell (length h) cell"
  by (auto simp: wf_heap_def heap_get_def list_all_length split: if_splits)

lemma distinct_own_props: "wf_heap h \<Longrightarrow> distinct (map fst (own_props h v))"
  by (auto simp: own_props_def distinct_index_keys wf_cell_def distinct_ordered
      split: jsval.splits option.splits hobj.splits dest!: wf_heap_cell)

lemma wf_index_props:
  "list_all (\<lambda>x. case x of None \<Rightarrow> True | Some v \<Rightarrow> wf_val n v) xs
     \<Longrightarrow> (k, v) \<in> set (index_props xs) \<Longrightarrow> wf_val n v"
  by (auto simp: index_props_def list_all_iff dest!: set_zip_rightD)

lemma wf_own_props:
  assumes "wf_heap h" and "(k, v) \<in> set (own_props h node)"
  shows "wf_val (length h) v"
proof (cases node)
  case (Str s)
  then have "(k, v) \<in> set (index_props (map (\<lambda>c. Some (Str [c])) s))"
    using assms(2) by (simp add: own_props_def)
  moreover have "list_all (\<lambda>x. case x of None \<Rightarrow> True | Some v \<Rightarrow> wf_val (length h) v)
      (map (\<lambda>c. Some (Str [c])) s)"
    by (simp add: list_all_iff wf_val_def)
  ultimately show ?thesis by (rule wf_index_props[rotated])
next
  case (Ref a)
  show ?thesis
  proof (cases "heap_get h a")
    case None
    then show ?thesis using assms(2) Ref by (simp add: own_props_def)
  next
    case (Some cell)
    note wf = wf_heap_cell[OF assms(1) Some]
    show ?thesis
    proof (cases cell)
      case (Obj p ps)
      then have "(k, v) \<in> set ps"
        using assms(2) Ref Some by (simp add: own_props_def set_ordered)
      then show ?thesis
        using wf Obj by (force simp: wf_cell_def list_all_iff)
    next
      case (Arr xs)
      then have "(k, v) \<in> set (index_props xs)"
        using assms(2) Ref Some by (simp add: own_props_def)
      then show ?thesis
        using wf Arr by (auto simp: wf_cell_def intro: wf_index_props)
    qed
  qed
qed (use assms(2) in \<open>simp_all add: own_props_def\<close>)

lemma wf_lookup_own_props: "wf_heap h \<Longrightarrow> wf_val (length h) (lookup (own_props h node) k)"
  by (auto simp: lookup_def wf_val_def split: option.splits jsval.splits
      dest!: map_of_SomeD wf_own_props)

lemma own_props_prefix:
  "prefix h0 h \<Longrightarrow> wf_val (length h0) v \<Longrightarrow> own_props h v = own_props h0 v"
  by (cases v) (auto simp: own_props_def wf_val_def heap_get_def prefix_def nth_append)

lemma distinct_foldl_update:
  "distinct (map fst t) \<Longrightarrow> distinct (map fst (foldl (\<lambda>ps (k, v). AList.update k v ps) t xs))"
  by (induction xs arbitrary: t) (auto simp: distinct_update)

lemma lookup_update: "lookup (AList.update k v ps) k' = (if k' = k then v else lookup ps k')"
  by (simp add: lookup_def update_conv')

lemma lookup_cong: "map_of ps k = map_of qs k \<Longrightarrow> lookup ps k = lookup qs k"
  by (simp add: lookup_def)

section \<open>Sharing along the traversal\<close>

lemma shares_entries_iff:
  "shares_entries n h h' ps ps' es
     = (\<forall>(k, sub)\<in>set es. k = ''__proto__'' \<or> map_of ps k = None
          \<or> shares n h h' (lookup ps k) sub (lookup ps' k))"
  by (induction es) auto

lemma same_except_iff:
  "same_except keys ps ps' = (\<forall>k. k \<notin> set keys \<longrightarrow> map_of ps' k = map_of ps k)"
proof
  assume "same_except keys ps ps'"
  then have in_keys: "\<And>k. k \<in> fst ` set ps \<union> fst ` set ps' \<Longrightarrow> k \<in> set keys \<or> map_of ps' k = map_of ps k"
    by (auto simp: same_except_def list_all_iff)
  show "\<forall>k. k \<notin> set keys \<longrightarrow> map_of ps' k = map_of ps k"
  proof (intro allI impI)
    fix k assume k: "k \<notin> set keys"
    show "map_of ps' k = map_of ps k"
    proof (cases "k \<in> fst ` set ps \<union> fst ` set ps'")
      case True
      then show ?thesis using in_keys k by blast
    next
      case False
      then have "map_of ps k = None" "map_of ps' k = None"
        by (simp_all add: map_of_eq_None_iff)
      then show ?thesis by simp
    qed
  qed
next
  assume "\<forall>k. k \<notin> set keys \<longrightarrow> map_of ps' k = map_of ps k"
  then show "same_except keys ps ps'"
    by (auto simp: same_except_def list_all_iff)
qed

lemma shares_mono:
  "(shares n h0 h1 node sel r \<longrightarrow> (\<forall>m h2. m \<le> n \<longrightarrow> length h1 \<le> length h2 \<longrightarrow>
      (\<forall>a. m \<le> a \<and> a < length h1 \<longrightarrow> h2 ! a = h1 ! a) \<longrightarrow> shares m h0 h2 node sel r))"
  "(shares_entries n h0 h1 ps ps' es \<longrightarrow> (\<forall>m h2. m \<le> n \<longrightarrow> length h1 \<le> length h2 \<longrightarrow>
      (\<forall>a. m \<le> a \<and> a < length h1 \<longrightarrow> h2 ! a = h1 ! a) \<longrightarrow> shares_entries m h0 h2 ps ps' es))"
proof (induction n h0 h1 node sel r and n h0 h1 ps ps' es rule: shares_shares_entries.induct)
  case (1 n h h' node p r)
  show ?case by simp
next
  case (2 n h h' node entries r)
  show ?case
  proof (intro impI allI)
    fix m h2
    assume sh: "shares n h h' node (Mapping entries) r" and mn: "m \<le> n"
      and len: "length h' \<le> length h2"
      and agree: "\<forall>a. m \<le> a \<and> a < length h' \<longrightarrow> h2 ! a = h' ! a"
    show "shares m h h2 node (Mapping entries) r"
    proof (cases "r = node")
      case True
      then show ?thesis by simp
    next
      case False
      then obtain c p' ps' where r: "r = Ref c" and c: "n \<le> c"
        and cell: "heap_get h' c = Some (Obj p' ps')"
        and dps': "distinct (map fst ps')"
        and se: "same_except (''__proto__'' # map fst entries) (own_props h node) ps'"
        and ents: "shares_entries n h h' (own_props h node) ps' entries"
        using sh by (auto split: jsval.splits option.splits hobj.splits)
      have "c < length h'" using cell by (simp add: heap_get_def split: if_splits)
      then have cell2: "heap_get h2 c = Some (Obj p' ps')"
        using cell agree len c mn by (auto simp: heap_get_def)
      have "shares_entries m h h2 (own_props h node) ps' entries"
        using 2[OF r cell] ents mn len agree by blast
      then show ?thesis
        using r c mn cell2 se dps' by simp
    qed
  qed
next
  case (3 n h h' ps ps')
  show ?case by simp
next
  case (4 n h h' ps ps' k sub rest)
  then show ?case by simp blast
qed

lemma select_shares:
  "(selectTransform E tu h node sel = Inr (r, h') \<longrightarrow>
      (\<forall>h0. prefix h0 h \<longrightarrow> wf_heap h0 \<longrightarrow> wf_val (length h0) node \<longrightarrow> valid_selector sel
         \<longrightarrow> shares (length h) h0 h' node sel r))"
  "(selectLoop E tu h node c es = Inr (r, h') \<longrightarrow>
      (\<forall>h0 p ps. prefix h0 h \<longrightarrow> wf_heap h0 \<longrightarrow> length h0 \<le> c \<longrightarrow> c < length h
         \<longrightarrow> heap_get h c = Some (Obj p ps) \<longrightarrow> distinct (map fst ps)
         \<longrightarrow> distinct (map fst es) \<longrightarrow> valid_entries es
         \<longrightarrow> (\<forall>k\<in>set (map fst es). k \<noteq> ''__proto__'' \<longrightarrow> wf_val (length h0) (lookup ps k))
         \<longrightarrow> r = node \<or> (r = Ref c \<and> (\<exists>p' ps'. heap_get h' c = Some (Obj p' ps')
               \<and> distinct (map fst ps')
               \<and> (\<forall>k. k \<notin> set (map fst es) \<longrightarrow> map_of ps' k = map_of ps k)
               \<and> (\<forall>(k, sub)\<in>set es. k = ''__proto__'' \<or> map_of ps k = None
                     \<or> shares (Suc c) h0 h' (lookup ps k) sub (lookup ps' k))))))"
proof (induction E tu h node sel and E tu h node c es arbitrary: r h' and r h'
    rule: selectTransform_selectLoop.induct)
  case (1 E tu h node p)
  show ?case by simp
next
  case (2 E tu h node entries)
  show ?case
  proof (intro impI allI)
    fix h0
    assume run: "selectTransform E tu h node (Mapping entries) = Inr (r, h')"
      and pre: "prefix h0 h" and wf: "wf_heap h0" and wfn: "wf_val (length h0) node"
      and valid: "valid_selector (Mapping entries)"
    from run obtain cl h1 where oa: "object_assign E h [node] = Inr (cl, h1)"
      and loop: "selectLoop E tu h1 node (length h) entries = Inr (r, h')"
      by (auto split: sum.splits)
    have own: "own_props h node = own_props h0 node"
      using pre wfn by (rule own_props_prefix)
    have dist: "distinct (map fst (own_props h0 node))"
      using wf by (rule distinct_own_props)
    from object_assign_result[OF oa] obtain pc psc where
      len1: "length h1 = Suc (length h)" and p1: "prefix h h1"
      and cellc: "heap_get h1 (length h) = Some (Obj pc psc)"
      and dpsc: "distinct (map fst psc)"
      and mpc: "\<forall>k. k \<noteq> ''__proto__'' \<longrightarrow> map_of psc k = map_of (rev (own_props h node)) k"
      by auto
    have mp: "map_of psc k = map_of (own_props h0 node) k" if "k \<noteq> ''__proto__''" for k
      using mpc that dist by (simp add: own map_of_rev_distinct)
    have lk: "lookup psc k = lookup (own_props h0 node) k" if "k \<noteq> ''__proto__''" for k
      using mp[OF that] by (rule lookup_cong)
    have a1: "prefix h0 h1" using pre p1 by (rule prefix_order.trans)
    have a2: "length h0 \<le> length h" using pre by (rule prefix_length_le)
    have a3: "length h < length h1" using len1 by simp
    have a4: "wf_val (length h0) (lookup psc k)" if "k \<noteq> ''__proto__''" for k
      using wf by (simp add: lk[OF that] wf_lookup_own_props)
    have a5: "distinct (map fst entries)" "valid_entries entries" using valid by simp_all
    have "r = node \<or> (r = Ref (length h) \<and> (\<exists>p' ps'. heap_get h' (length h) = Some (Obj p' ps')
               \<and> distinct (map fst ps')
               \<and> (\<forall>k. k \<notin> set (map fst entries) \<longrightarrow> map_of ps' k = map_of psc k)
               \<and> (\<forall>(k, sub)\<in>set entries. k = ''__proto__'' \<or> map_of psc k = None
                     \<or> shares (Suc (length h)) h0 h' (lookup psc k) sub (lookup ps' k))))"
      using 2[OF oa refl, rule_format, OF loop a1 wf a2 a3 cellc dpsc a5] a4 by blast
    then show "shares (length h) h0 h' node (Mapping entries) r"
    proof
      assume "r = node"
      then show ?thesis by simp
    next
      assume "r = Ref (length h) \<and> (\<exists>p' ps'. heap_get h' (length h) = Some (Obj p' ps')
               \<and> distinct (map fst ps')
               \<and> (\<forall>k. k \<notin> set (map fst entries) \<longrightarrow> map_of ps' k = map_of psc k)
               \<and> (\<forall>(k, sub)\<in>set entries. k = ''__proto__'' \<or> map_of psc k = None
                     \<or> shares (Suc (length h)) h0 h' (lookup psc k) sub (lookup ps' k)))"
      then obtain p' ps' where r: "r = Ref (length h)"
        and cell: "heap_get h' (length h) = Some (Obj p' ps')"
        and dps': "distinct (map fst ps')"
        and same: "\<forall>k. k \<notin> set (map fst entries) \<longrightarrow> map_of ps' k = map_of psc k"
        and ents: "\<forall>(k, sub)\<in>set entries. k = ''__proto__'' \<or> map_of psc k = None
                     \<or> shares (Suc (length h)) h0 h' (lookup psc k) sub (lookup ps' k)"
        by blast
      have se: "same_except (''__proto__'' # map fst entries) (own_props h0 node) ps'"
        using same mp by (simp add: same_except_iff)
      have "k = ''__proto__'' \<or> map_of (own_props h0 node) k = None
          \<or> shares (length h) h0 h' (lookup (own_props h0 node) k) sub (lookup ps' k)"
        if mem: "(k, sub) \<in> set entries" for k sub
      proof (cases "k = ''__proto__'' \<or> map_of (own_props h0 node) k = None")
        case True
        then show ?thesis by blast
      next
        case False
        then have k: "k \<noteq> ''__proto__''" and some: "map_of psc k \<noteq> None"
          using mp[of k] by auto
        have "shares (Suc (length h)) h0 h' (lookup psc k) sub (lookup ps' k)"
          using ents mem k some by auto
        then have "shares (Suc (length h)) h0 h' (lookup (own_props h0 node) k) sub (lookup ps' k)"
          using lk[OF k] by simp
        then show ?thesis
          using shares_mono(1)[of "Suc (length h)" h0 h'] by auto
      qed
      then have "shares_entries (length h) h0 h' (own_props h0 node) ps' entries"
        unfolding shares_entries_iff by blast
      then show ?thesis
        using r cell se dps' by simp
    qed
  qed
next
  case (3 E tu h node c)
  show ?case by auto
next
  case (4 E tu h node c key filteredObject rest)
  show ?case
  proof (intro impI allI)
    fix h0 p ps
    assume run: "selectLoop E tu h node c ((key, filteredObject) # rest) = Inr (r, h')"
      and pre: "prefix h0 h" and wf: "wf_heap h0" and c0: "length h0 \<le> c" and c: "c < length h"
      and cell: "heap_get h c = Some (Obj p ps)" and dps: "distinct (map fst ps)"
      and des: "distinct (map fst ((key, filteredObject) # rest))"
      and valid: "valid_entries ((key, filteredObject) # rest)"
      and wfc: "\<forall>k\<in>set (map fst ((key, filteredObject) # rest)).
                  k \<noteq> ''__proto__'' \<longrightarrow> wf_val (length h0) (lookup ps k)"
    let ?goal = "r = node \<or> (r = Ref c \<and> (\<exists>p' ps'. heap_get h' c = Some (Obj p' ps')
               \<and> distinct (map fst ps')
               \<and> (\<forall>k. k \<notin> set (map fst ((key, filteredObject) # rest)) \<longrightarrow> map_of ps' k = map_of ps k)
               \<and> (\<forall>(k, sub)\<in>set ((key, filteredObject) # rest). k = ''__proto__'' \<or> map_of ps k = None
                     \<or> shares (Suc c) h0 h' (lookup ps k) sub (lookup ps' k))))"
    from run obtain ko where get: "js_get E h c key = Inr ko"
      by (auto split: sum.splits)
    show ?goal
    proof (cases "ko = Undefined \<or> ko = Null")
      case True
      then have "r = node" using run get by auto
      then show ?thesis by simp
    next
      case False
      then obtain r1 h1 h2 where
        rec: "selectTransform E tu h ko filteredObject = Inr (r1, h1)" and
        st: "js_set E h1 c key r1 = Inr h2" and
        restrun: "selectLoop E tu h2 node c rest = Inr (r, h')"
        using run get by (auto split: sum.splits)
      have p1: "prefix h h1" using select_frame(1) rec by blast
      have cell1: "heap_get h1 c = Some (Obj p ps)" using p1 cell by (rule prefix_heap_get)
      from js_set_cell[OF st cell1] obtain p2 ps2 where
        cell2: "heap_get h2 c = Some (Obj p2 ps2)"
        and shape: "ps2 = ps \<and> key = ''__proto__'' \<or> ps2 = AList.update key r1 ps"
        by auto
      have own_shape: "ps2 = AList.update key r1 ps" if "map_of ps key \<noteq> None"
      proof -
        have "js_set E h1 c key r1 = Inr (h1[c := Obj p (AList.update key r1 ps)])"
          using cell1 that by (rule js_set_own)
        then have "h2 = h1[c := Obj p (AList.update key r1 ps)]" using st by simp
        moreover have "c < length h1" using cell1 by (rule heap_get_lt)
        ultimately show ?thesis using cell2 by (simp add: heap_get_def)
      qed
      have b1: "prefix h0 h2"
        using st prefix_order.trans[OF pre p1] c0 by (rule js_set_frame)
      have len2: "length h2 = length h1" using st by (rule js_set_length)
      have b2: "c < length h2" using c p1 len2 by (auto dest: prefix_length_le)
      have b4: "distinct (map fst ps2)" using dps shape by (auto simp: distinct_update)
      have notin: "key \<notin> set (map fst rest)" using des by simp
      have other: "map_of ps2 k = map_of ps k" if "k \<noteq> key" for k
        using shape that by (auto simp: update_conv')
      have b5: "\<forall>k\<in>set (map fst rest). k \<noteq> ''__proto__'' \<longrightarrow> wf_val (length h0) (lookup ps2 k)"
      proof (intro ballI impI)
        fix k assume k: "k \<in> set (map fst rest)" and kp: "k \<noteq> ''__proto__''"
        have "k \<noteq> key" using k notin by auto
        then have "lookup ps2 k = lookup ps k" by (intro lookup_cong other)
        then show "wf_val (length h0) (lookup ps2 k)" using wfc k kp by auto
      qed
      have b6: "distinct (map fst rest)" "valid_entries rest" using des valid by simp_all
      have ih: "r = node \<or> (r = Ref c \<and> (\<exists>p' ps'. heap_get h' c = Some (Obj p' ps')
               \<and> distinct (map fst ps')
               \<and> (\<forall>k. k \<notin> set (map fst rest) \<longrightarrow> map_of ps' k = map_of ps2 k)
               \<and> (\<forall>(k, sub)\<in>set rest. k = ''__proto__'' \<or> map_of ps2 k = None
                     \<or> shares (Suc c) h0 h' (lookup ps2 k) sub (lookup ps' k))))"
        using 4(2)[OF get False rec refl st, rule_format, OF restrun b1 wf c0 b2 cell2 b4 b6] b5
        by blast
      show ?thesis
      proof (cases "r = node")
        case True
        then show ?thesis by simp
      next
        case False
        then obtain p' ps' where r: "r = Ref c" and cell': "heap_get h' c = Some (Obj p' ps')"
          and dps': "distinct (map fst ps')"
          and same: "\<forall>k. k \<notin> set (map fst rest) \<longrightarrow> map_of ps' k = map_of ps2 k"
          and ents: "\<forall>(k, sub)\<in>set rest. k = ''__proto__'' \<or> map_of ps2 k = None
                     \<or> shares (Suc c) h0 h' (lookup ps2 k) sub (lookup ps' k)"
          using ih by blast
        have fr: "length h2 \<le> length h' \<and> (\<forall>a<length h2. a \<noteq> c \<longrightarrow> h' ! a = h2 ! a)"
          using select_frame(2) restrun b2 by blast
        have agree: "\<forall>a. Suc c \<le> a \<and> a < length h1 \<longrightarrow> h' ! a = h1 ! a"
          using fr len2 js_set_other[OF st] by auto
        have len: "length h1 \<le> length h'" using fr len2 by simp
        have head: "key = ''__proto__'' \<or> map_of ps key = None
            \<or> shares (Suc c) h0 h' (lookup ps key) filteredObject (lookup ps' key)"
        proof (cases "key = ''__proto__'' \<or> map_of ps key = None")
          case True
          then show ?thesis by blast
        next
          case nk: False
          then obtain v where v: "map_of ps key = Some v" by auto
          have ko: "ko = v" using js_get_own[OF cell v, of E] get by simp
          have keyed: "lookup ps key = ko" using v ko by (simp add: lookup_def)
          have wfk: "wf_val (length h0) ko" using wfc nk keyed by auto
          have sh1: "shares (length h) h0 h1 ko filteredObject r1"
            using 4(1)[OF get \<open>\<not> (ko = Undefined \<or> ko = Null)\<close>, rule_format, OF rec pre wf wfk] valid
            by simp
          have "ps2 = AList.update key r1 ps" using own_shape v by simp
          then have "map_of ps' key = Some r1" using same notin by (simp add: update_conv')
          then have "lookup ps' key = r1" by (simp add: lookup_def)
          moreover have "shares (Suc c) h0 h' ko filteredObject r1"
            using shares_mono(1)[of "length h" h0 h1 ko filteredObject r1] sh1 c len agree
            by auto
          ultimately show ?thesis using keyed by simp
        qed
        have tail: "k = ''__proto__'' \<or> map_of ps k = None
            \<or> shares (Suc c) h0 h' (lookup ps k) sub (lookup ps' k)"
          if "(k, sub) \<in> set rest" for k sub
        proof -
          have kk: "k \<noteq> key" using that notin by force
          have "lookup ps2 k = lookup ps k" using kk by (intro lookup_cong other)
          then show ?thesis using ents that other[OF kk] by auto
        qed
        have keep: "\<forall>k. k \<notin> set (map fst ((key, filteredObject) # rest)) \<longrightarrow> map_of ps' k = map_of ps k"
          using same other by auto
        show ?thesis
          using r cell' dps' keep head tail by auto
      qed
    qed
  qed
qed

section \<open>Snapshots, and how the loop ends\<close>

lemma js_get_plain_read:
  "heap_get h c = Some (Obj ObjectPrototype ps) \<Longrightarrow> js_get E h c k = Inr (plain_read ps k)"
  by (simp add: js_get_plain plain_read_def)

lemma plain_read_cong: "map_of ps k = map_of qs k \<Longrightarrow> plain_read ps k = plain_read qs k"
  by (simp add: plain_read_def)

lemma plain_read_own: "map_of ps k = Some v \<Longrightarrow> plain_read ps k = v"
  by (simp add: plain_read_def)

lemma those_map_Some:
  "those (map f xs) = Some ys \<Longrightarrow> (\<And>x y. x \<in> set xs \<Longrightarrow> f x = Some y \<Longrightarrow> g x = Some y)
     \<Longrightarrow> those (map g xs) = Some ys"
proof (induction xs arbitrary: ys)
  case Nil
  then show ?case by simp
next
  case (Cons x xs)
  from Cons.prems(1) obtain y ys' where fx: "f x = Some y" and rest: "those (map f xs) = Some ys'"
    and ys: "ys = y # ys'"
    by (auto split: option.splits)
  have "g x = Some y" using Cons.prems(2) fx by simp
  moreover have "those (map g xs) = Some ys'"
    using rest Cons.prems(2) by (intro Cons.IH) auto
  ultimately show ?case using ys by simp
qed

lemma snapshot_prefix:
  "prefix h h' \<Longrightarrow> snapshot n h v = Some t \<Longrightarrow> snapshot n h' v = Some t"
proof (induction n arbitrary: v t)
  case 0
  then show ?case by simp
next
  case (Suc n)
  show ?case
  proof (cases v)
    case (Ref a)
    then obtain cell where cell: "heap_get h a = Some cell"
      using Suc.prems(2) by (auto split: option.splits)
    then have cell': "heap_get h' a = Some cell"
      using Suc.prems(1) by (auto intro: prefix_heap_get)
    show ?thesis
    proof (cases cell)
      case (Obj p ps)
      then obtain ts where ts: "those (map (\<lambda>(k, x). map_option (Pair k) (snapshot n h x)) ps) = Some ts"
        and t: "t = ObjT ts"
        using Suc.prems(2) Ref cell by auto
      have "those (map (\<lambda>(k, x). map_option (Pair k) (snapshot n h' x)) ps) = Some ts"
        using ts
      proof (rule those_map_Some)
        fix q y
        assume py: "(case q of (k, x) \<Rightarrow> map_option (Pair k) (snapshot n h x)) = Some y"
        obtain k x where q: "q = (k, x)" by (cases q)
        from py q obtain t' where "snapshot n h x = Some t'" and y: "y = (k, t')"
          by auto
        then have "snapshot n h' x = Some t'" using Suc.IH[OF Suc.prems(1)] by simp
        then show "(case q of (k, x) \<Rightarrow> map_option (Pair k) (snapshot n h' x)) = Some y"
          using q y by simp
      qed
      then show ?thesis using Ref cell' Obj t by simp
    next
      case (Arr xs)
      let ?f = "\<lambda>hh x. case x of None \<Rightarrow> Some None | Some y \<Rightarrow> map_option Some (snapshot n hh y)"
      from Arr obtain ts where ts: "those (map (?f h) xs) = Some ts" and t: "t = ArrT ts"
        using Suc.prems(2) Ref cell by auto
      have "those (map (?f h') xs) = Some ts"
        using ts
      proof (rule those_map_Some)
        fix x y
        assume xy: "?f h x = Some y"
        show "?f h' x = Some y"
        proof (cases x)
          case None
          then show ?thesis using xy by simp
        next
          case (Some z)
          then obtain t' where "snapshot n h z = Some t'" and y: "y = Some t'"
            using xy by auto
          then have "snapshot n h' z = Some t'" using Suc.IH[OF Suc.prems(1)] by simp
          then show ?thesis using Some y by simp
        qed
      qed
      then show ?thesis using Ref cell' Arr t by simp
    qed
  qed (use Suc.prems(2) in simp_all)
qed

lemma loop_split:
  "heap_get h c = Some (Obj ObjectPrototype ps) \<Longrightarrow> ''__proto__'' \<notin> set (map fst pre)
     \<Longrightarrow> k \<notin> set (map fst pre) \<Longrightarrow> plain_read ps k = Undefined \<or> plain_read ps k = Null
     \<Longrightarrow> selectLoop E tu h node c (pre @ (k, sub) # post)
         = (case selectLoop E tu h node c pre of
              Inl e \<Rightarrow> Inl e
            | Inr (r, h') \<Rightarrow> Inr (node, h'))"
proof (induction pre arbitrary: h ps)
  case Nil
  then show ?case by (simp add: js_get_plain_read)
next
  case (Cons e pre)
  obtain key s where e: "e = (key, s)" by (cases e)
  have get: "js_get E h c key = Inr (plain_read ps key)"
    using Cons.prems(1) by (rule js_get_plain_read)
  let ?ko = "plain_read ps key"
  show ?case
  proof (cases "?ko = Undefined \<or> ?ko = Null")
    case True
    then show ?thesis using e get by auto
  next
    case nn: False
    show ?thesis
    proof (cases "selectTransform E tu h ?ko s")
      case (Inl err)
      then show ?thesis using e get nn by simp
    next
      case (Inr res)
      obtain r1 h1 where res: "res = (r1, h1)" by (cases res)
      have rec: "selectTransform E tu h ?ko s = Inr (r1, h1)" using Inr res by simp
      have p1: "prefix h h1" using select_frame(1) rec by blast
      have cell1: "heap_get h1 c = Some (Obj ObjectPrototype ps)"
        using p1 Cons.prems(1) by (rule prefix_heap_get)
      have kp: "key \<noteq> ''__proto__''" using Cons.prems(2) e by auto
      let ?h2 = "h1[c := Obj ObjectPrototype (AList.update key r1 ps)]"
      have st: "js_set E h1 c key r1 = Inr ?h2" using cell1 kp by (rule js_set_plain)
      have cell2: "heap_get ?h2 c = Some (Obj ObjectPrototype (AList.update key r1 ps))"
        using heap_get_lt[OF cell1] by (rule heap_get_update)
      have kk: "k \<noteq> key" using Cons.prems(3) e by auto
      have "plain_read (AList.update key r1 ps) k = plain_read ps k"
        using kk by (intro plain_read_cong) (simp add: update_conv')
      then have ih: "selectLoop E tu ?h2 node c (pre @ (k, sub) # post)
          = (case selectLoop E tu ?h2 node c pre of
               Inl e \<Rightarrow> Inl e
             | Inr (r, h') \<Rightarrow> Inr (node, h'))"
        using Cons.prems(2,3,4) e by (intro Cons.IH[OF cell2]) auto
      show ?thesis using e get nn rec st ih by simp
    qed
  qed
qed


section \<open>The traversal with no pending update\<close>

lemma no_operation_not_thrown: "no_operation \<noteq> Thrown v"
  by (simp add: no_operation_def)

lemma select_no_operation:
  "selectTransform E tu h node sel = Inl no_operation \<Longrightarrow> tu = []"
  using select_throws(1)[of E tu h node sel no_operation]
  by (simp add: no_operation_not_thrown no_operation_not_type_error)

lemma select_reaches:
  "(tu = [] \<longrightarrow> (selectTransform E tu h node sel = Inl no_operation) = reaches E tu h node sel)"
  "(tu = [] \<longrightarrow> (selectLoop E tu h node c es = Inl no_operation) = reaches_loop E tu h node c es)"
proof (induction E tu h node sel and E tu h node c es
    rule: selectTransform_selectLoop.induct)
  case (1 E tu h node p)
  show ?case by (auto simp: Let_def)
next
  case (2 E tu h node entries)
  show ?case
  proof (cases "object_assign E h [node]")
    case (Inl e)
    then have "e = type_error" by (rule object_assign_error)
    then show ?thesis using Inl no_operation_not_type_error by auto
  next
    case (Inr res)
    obtain cl h1 where res: "res = (cl, h1)" by (cases res)
    show ?thesis using 2[OF Inr[unfolded res] refl] Inr res by simp
  qed
next
  case (3 E tu h node c)
  show ?case by simp
next
  case (4 E tu h node c key filteredObject rest)
  show ?case
  proof (cases "js_get E h c key")
    case (Inl e)
    then have "e = type_error" by (rule js_get_error)
    then show ?thesis using Inl no_operation_not_type_error by auto
  next
    case get: (Inr ko)
    show ?thesis
    proof (cases "ko = Undefined \<or> ko = Null")
      case True
      then show ?thesis using get by auto
    next
      case nn: False
      show ?thesis
      proof (cases "selectTransform E tu h ko filteredObject")
        case (Inl e)
        show ?thesis
        proof
          assume tu: "tu = []"
          have "(e = no_operation) = reaches E tu h ko filteredObject"
            using 4(1)[OF get nn] tu Inl by simp
          then show "(selectLoop E tu h node c ((key, filteredObject) # rest) = Inl no_operation)
              = reaches_loop E tu h node c ((key, filteredObject) # rest)"
            using get nn Inl by auto
        qed
      next
        case (Inr res)
        obtain r1 h1 where res: "res = (r1, h1)" by (cases res)
        note rec = Inr[unfolded res]
        show ?thesis
        proof
          assume tu: "tu = []"
          have nr: "\<not> reaches E tu h ko filteredObject"
            using 4(1)[OF get nn] tu rec by simp
          show "(selectLoop E tu h node c ((key, filteredObject) # rest) = Inl no_operation)
              = reaches_loop E tu h node c ((key, filteredObject) # rest)"
          proof (cases "js_set E h1 c key r1")
            case (Inl e)
            then have "e = type_error" by (rule js_set_error)
            then show ?thesis using get nn rec Inl nr no_operation_not_type_error by auto
          next
            case st: (Inr h2)
            show ?thesis
              using 4(2)[OF get nn rec refl st] tu get nn rec st nr by simp
          qed
        qed
      qed
    qed
  qed
qed

section \<open>The pending updates\<close>

lemma toUpdateCoro_twice: "toUpdateCoro (toUpdateCoro tu u1 p) u2 p = toUpdateCoro tu u2 p"
  by (simp add: toUpdateCoro_def)

lemma leaf_resolution:
  "tu \<noteq> [] \<Longrightarrow> selectTransform E tu h node (Marker p) =
     (case map_of tu (if p = [] then ''default'' else marker_string p) of
        Some e \<Rightarrow> operationalMapper E (upd_operation e) h node (upd_value e)
      | None \<Rightarrow> Inr (node, h))"
proof -
  assume ne: "tu \<noteq> []"
  have mem: "k \<in> fst ` set tu \<longleftrightarrow> map_of tu k \<noteq> None" for k
    by (simp add: map_of_eq_None_iff)
  show ?thesis
  proof (cases "p = []")
    case True
    then show ?thesis
      using ne by (cases "map_of tu ''default''") (simp_all add: Let_def marker_string_def mem)
  next
    case False
    then show ?thesis
      using ne
      by (cases "map_of tu (marker_string p)") (simp_all add: Let_def mem, simp_all add: marker_string_def)
  qed
qed

lemma toUpdateCoro_Nil: "tu \<noteq> [] \<Longrightarrow> toUpdateCoro tu u a \<noteq> []"
  by (auto simp: toUpdateCoro_def)

section \<open>Claims about the pending updates\<close>

lemma toUpdateCoro_leaf_slot:
  "a \<noteq> marker_string p \<Longrightarrow>
   map_of (toUpdateCoro tu u a) (if p = [] then ''default'' else marker_string p)
     = map_of tu (if p = [] then ''default'' else marker_string p)"
  by (auto simp: toUpdateCoro_def update_conv' marker_string_def startsWith_def)

lemma operationFactory_twice:
  "operationFactory op2 b (operationFactory op1 a s) = operationFactory op2 b s"
proof -
  have "b \<noteq> Undefined \<or> b \<noteq> Null" "a \<noteq> Undefined \<or> a \<noteq> Null" by auto
  then show ?thesis
    by (simp add: operationFactory_def toUpdateCoro_twice)
qed

lemma fresh_ledger:
  "toUpdate (operationFactory op2 b (of_target (Str (marker_string q)) (selectorWrapper sel obj)))
     = [(if q = [] then ''default'' else marker_string q, Updater b op2)]"
proof -
  have ne: "b \<noteq> Undefined \<or> b \<noteq> Null" by auto
  show ?thesis
    using ne
    by (cases q)
       (simp_all add: operationFactory_def of_target_def selectorWrapper_def toUpdateCoro_def
          marker_string_def falsy_def startsWith_def)
qed

text \<open>
  Claim C9 (last write wins). For every pointer, recording twice under it leaves the ledger
  as if only the second operation had been recorded. For every pointer that the ledger
  accepts (the bare \<^verbatim>\<open>#\<close>, or a string that starts with \<^verbatim>\<open>#\<close> and is longer) the slot of the
  pointer then holds the second entry, and a ledger that was empty holds that entry and
  nothing else. The session after \<^verbatim>\<open>set(a)\<close> and \<^verbatim>\<open>set(b)\<close> is the session after \<^verbatim>\<open>set(b)\<close>
  alone and \<^verbatim>\<open>apply()\<close> gives the same outcome. In a fresh session that was pointed to any
  marker \<^verbatim>\<open>"#" + q\<close> by \<^verbatim>\<open>of\<close>, the ledger after two operations consists of the second entry,
  under the slot of that marker, and a leaf with that marker is resolved by the second
  operation with the second payload.
\<close>

theorem last_write_wins:
  "toUpdateCoro (toUpdateCoro tu u1 p) u2 p = toUpdateCoro tu u2 p
   \<and> (p = ''#'' \<or> startsWith p ''#'' \<and> length p > 1 \<longrightarrow>
        map_of (toUpdateCoro (toUpdateCoro tu u1 p) u2 p) (if p = ''#'' then ''default'' else p)
          = Some u2
        \<and> toUpdateCoro (toUpdateCoro [] u1 p) u2 p = [(if p = ''#'' then ''default'' else p, u2)])
   \<and> operationFactory op2 b (operationFactory op1 a s) = operationFactory op2 b s
   \<and> apply_changes E (operationFactory op2 b (operationFactory op1 a s)) h
       = apply_changes E (operationFactory op2 b s) h
   \<and> toUpdate (operationFactory op2 b (operationFactory op1 a
        (of_target (Str (marker_string q)) (selectorWrapper sel obj))))
       = [(if q = [] then ''default'' else marker_string q, Updater b op2)]
   \<and> selectTransform E
        (toUpdate (operationFactory op2 b (operationFactory op1 a
           (of_target (Str (marker_string q)) (selectorWrapper sel obj)))))
        h node (Marker q) = operationalMapper E op2 h node b"
proof -
  have slot: "p = ''#'' \<or> startsWith p ''#'' \<and> length p > 1 \<longrightarrow>
        map_of (toUpdateCoro (toUpdateCoro tu u1 p) u2 p) (if p = ''#'' then ''default'' else p)
          = Some u2
        \<and> toUpdateCoro (toUpdateCoro [] u1 p) u2 p = [(if p = ''#'' then ''default'' else p, u2)]"
    by (auto simp: toUpdateCoro_def update_conv')
  have led: "toUpdate (operationFactory op2 b (operationFactory op1 a
        (of_target (Str (marker_string q)) (selectorWrapper sel obj))))
       = [(if q = [] then ''default'' else marker_string q, Updater b op2)]"
    by (simp only: operationFactory_twice fresh_ledger)
  have leaf: "selectTransform E [(if q = [] then ''default'' else marker_string q, Updater b op2)]
      h node (Marker q) = operationalMapper E op2 h node b"
    by (cases q) (simp_all add: marker_string_def)
  have twice: "toUpdateCoro (toUpdateCoro tu u1 p) u2 p = toUpdateCoro tu u2 p"
    by (rule toUpdateCoro_twice)
  have fac: "operationFactory op2 b (operationFactory op1 a s) = operationFactory op2 b s"
    by (rule operationFactory_twice)
  have app: "apply_changes E (operationFactory op2 b (operationFactory op1 a s)) h
       = apply_changes E (operationFactory op2 b s) h"
    by (simp only: operationFactory_twice)
  have res: "selectTransform E
        (toUpdate (operationFactory op2 b (operationFactory op1 a
           (of_target (Str (marker_string q)) (selectorWrapper sel obj)))))
        h node (Marker q) = operationalMapper E op2 h node b"
    unfolding led by (rule leaf)
  from twice slot fac app led res show ?thesis by (intro conjI)
qed

text \<open>The theorem on \<^verbatim>\<open>{ p: 1, q: 2 }\<close> with \<^verbatim>\<open>of('#/a')\<close>, \<^verbatim>\<open>set(7)\<close> and then \<^verbatim>\<open>set(8)\<close>.\<close>

theorem last_write_wins_witness:
  "apply_changes id_env
     (operationFactory OpSet (Num 8) (operationFactory OpSet (Num 7)
        (of_target (Str ''#/a'') (selectorWrapper two_leaves_selector (Ref 0)))))
     two_leaves_heap
   = Inr (Ref 1, two_leaves_heap @ [Obj ObjectPrototype [(''p'', Num 8), (''q'', Num 2)]])
   \<and> toUpdate (operationFactory OpSet (Num 8) (operationFactory OpSet (Num 7)
        (of_target (Str ''#/a'') (selectorWrapper two_leaves_selector (Ref 0)))))
     = [(''#/a'', Updater (Num 8) OpSet)]
   \<and> map_of (toUpdateCoro (toUpdateCoro [(''#/b'', Updater (Num 1) OpSet)]
               (Updater (Num 7) OpSet) ''#/a'') (Updater (Num 8) OpSet) ''#/a'') ''#/a''
     = Some (Updater (Num 8) OpSet)
   \<and> selectTransform id_env
        (toUpdate (operationFactory OpSet (Num 8) (operationFactory OpSet (Num 7)
           (of_target (Str ''#/a'') (selectorWrapper two_leaves_selector (Ref 0))))))
        two_leaves_heap (Num 1) (Marker ''/a'') = Inr (Num 8, two_leaves_heap)"
proof -
  let ?s0 = "of_target (Str ''#/a'') (selectorWrapper two_leaves_selector (Ref 0))"
  note t = last_write_wins[of "[(''#/b'', Updater (Num 1) OpSet)]" "Updater (Num 7) OpSet" "''#/a''"
      "Updater (Num 8) OpSet" OpSet "Num 8" OpSet "Num 7" ?s0
      id_env two_leaves_heap "''/a''" two_leaves_selector "Ref 0" "Num 1"]
  have m: "marker_string ''/a'' = ''#/a''" by (simp add: marker_string_def)
  have v: "startsWith ''#/a'' ''#'' \<and> length ''#/a'' > 1" by (simp add: startsWith_def)
  have 0: "apply_changes id_env (operationFactory OpSet (Num 8) ?s0) two_leaves_heap
      = Inr (Ref 1, two_leaves_heap @ [Obj ObjectPrototype [(''p'', Num 8), (''q'', Num 2)]])"
    by code_simp
  from t have "apply_changes id_env (operationFactory OpSet (Num 8) (operationFactory OpSet (Num 7) ?s0))
      two_leaves_heap = apply_changes id_env (operationFactory OpSet (Num 8) ?s0) two_leaves_heap"
    by blast
  then have 1: "apply_changes id_env (operationFactory OpSet (Num 8) (operationFactory OpSet (Num 7) ?s0))
      two_leaves_heap
      = Inr (Ref 1, two_leaves_heap @ [Obj ObjectPrototype [(''p'', Num 8), (''q'', Num 2)]])"
    using 0 by simp
  let ?sq = "of_target (Str (marker_string ''/a'')) (selectorWrapper two_leaves_selector (Ref 0))"
  from t have "toUpdate (operationFactory OpSet (Num 8) (operationFactory OpSet (Num 7) ?sq))
      = [(if ''/a'' = [] then ''default'' else marker_string ''/a'', Updater (Num 8) OpSet)]"
    by (elim conjE)
  then have 2: "toUpdate (operationFactory OpSet (Num 8) (operationFactory OpSet (Num 7) ?s0))
      = [(''#/a'', Updater (Num 8) OpSet)]"
    by (simp add: m)
  note slot = t[THEN conjunct2, THEN conjunct1]
  from slot v have "map_of (toUpdateCoro (toUpdateCoro [(''#/b'', Updater (Num 1) OpSet)]
               (Updater (Num 7) OpSet) ''#/a'') (Updater (Num 8) OpSet) ''#/a'')
         (if ''#/a'' = ''#'' then ''default'' else ''#/a'')
     = Some (Updater (Num 8) OpSet)"
    by blast
  then have 3: "map_of (toUpdateCoro (toUpdateCoro [(''#/b'', Updater (Num 1) OpSet)]
               (Updater (Num 7) OpSet) ''#/a'') (Updater (Num 8) OpSet) ''#/a'') ''#/a''
     = Some (Updater (Num 8) OpSet)"
    by simp
  from t have "selectTransform id_env
        (toUpdate (operationFactory OpSet (Num 8) (operationFactory OpSet (Num 7) ?sq)))
        two_leaves_heap (Num 1) (Marker ''/a'') = operationalMapper id_env OpSet two_leaves_heap (Num 1) (Num 8)"
    by (elim conjE)
  then have 4: "selectTransform id_env
        (toUpdate (operationFactory OpSet (Num 8) (operationFactory OpSet (Num 7) ?s0)))
        two_leaves_heap (Num 1) (Marker ''/a'') = Inr (Num 8, two_leaves_heap)"
    by (simp add: m operationalMapper_def set_op_def)
  show ?thesis using 1 2 3 4 by blast
qed

text \<open>
  Claim C7 (pointer resolution is exact and scoped). An entry recorded under \<^verbatim>\<open>#\<close> is
  stored in the slot \<^verbatim>\<open>default\<close>, an entry recorded under any longer pointer under that very
  string. A leaf marked \<^verbatim>\<open>#\<close> is resolved from the slot \<^verbatim>\<open>default\<close> and any other leaf by
  looking up its own string, with no other matching. Recording under a pointer different
  from the marker of a leaf does not change what that leaf resolves to: the outcome at the
  leaf is the one before, except that a ledger that was empty before no longer raises the
  error of the empty ledger and the leaf keeps the original value.
\<close>

theorem pointer_resolution:
  "toUpdateCoro tu u ''#'' = AList.update ''default'' u tu
   \<and> (startsWith a ''#'' \<and> length a > 1 \<longrightarrow> toUpdateCoro tu u a = AList.update a u tu)
   \<and> (tu \<noteq> [] \<longrightarrow> selectTransform E tu h node (Marker p) =
         (case map_of tu (if p = [] then ''default'' else marker_string p) of
            Some e \<Rightarrow> operationalMapper E (upd_operation e) h node (upd_value e)
          | None \<Rightarrow> Inr (node, h)))
   \<and> (a \<noteq> marker_string p \<longrightarrow>
        selectTransform E (toUpdateCoro tu u a) h node (Marker p) =
          (if tu = [] then (if toUpdateCoro tu u a = [] then Inl no_operation else Inr (node, h))
           else selectTransform E tu h node (Marker p)))"
proof (intro conjI impI)
  show "toUpdateCoro tu u ''#'' = AList.update ''default'' u tu"
    by (simp add: toUpdateCoro_def)
  show "toUpdateCoro tu u a = AList.update a u tu" if "startsWith a ''#'' \<and> 1 < length a"
    using that by (auto simp: toUpdateCoro_def)
  show "selectTransform E tu h node (Marker p) =
         (case map_of tu (if p = [] then ''default'' else marker_string p) of
            Some e \<Rightarrow> operationalMapper E (upd_operation e) h node (upd_value e)
          | None \<Rightarrow> Inr (node, h))" if "tu \<noteq> []"
    using that by (rule leaf_resolution)
  show "selectTransform E (toUpdateCoro tu u a) h node (Marker p) =
          (if tu = [] then (if toUpdateCoro tu u a = [] then Inl no_operation else Inr (node, h))
           else selectTransform E tu h node (Marker p))" if neq: "a \<noteq> marker_string p"
  proof (cases "tu = []")
    case False
    have "selectTransform E (toUpdateCoro tu u a) h node (Marker p) =
        selectTransform E tu h node (Marker p)"
      unfolding leaf_resolution[OF False] leaf_resolution[OF toUpdateCoro_Nil[OF False]]
        toUpdateCoro_leaf_slot[OF neq] ..
    then show ?thesis using False by simp
  next
    case True
    show ?thesis
    proof (cases "toUpdateCoro tu u a = []")
      case Nil: True
      then show ?thesis using True by simp
    next
      case False
      have "map_of (toUpdateCoro tu u a) (if p = [] then ''default'' else marker_string p) = None"
        using toUpdateCoro_leaf_slot[OF neq, of tu u] True by simp
      then have "selectTransform E (toUpdateCoro tu u a) h node (Marker p) = Inr (node, h)"
        unfolding leaf_resolution[OF False] by simp
      then show ?thesis using False True by simp
    qed
  qed
qed

text \<open>The theorem on \<^verbatim>\<open>{ p: 1, q: 2 }\<close>: an operation recorded through \<^verbatim>\<open>of('#/a')\<close> leaves
  the leaf marked \<^verbatim>\<open>#/b\<close> alone.\<close>

theorem pointer_resolution_witness:
  "startsWith ''#/a'' ''#'' \<and> length ''#/a'' > 1
   \<and> toUpdateCoro [(''#/b'', Updater (Num 7) OpSet)] (Updater (Num 9) OpSet) ''#/a''
        = [(''#/b'', Updater (Num 7) OpSet), (''#/a'', Updater (Num 9) OpSet)]
   \<and> selectTransform id_env [(''#/b'', Updater (Num 7) OpSet)] two_leaves_heap (Num 2) (Marker ''/b'')
        = Inr (Num 7, two_leaves_heap)
   \<and> selectTransform id_env
        (toUpdateCoro [(''#/b'', Updater (Num 7) OpSet)] (Updater (Num 9) OpSet) ''#/a'')
        two_leaves_heap (Num 2) (Marker ''/b'') = Inr (Num 7, two_leaves_heap)
   \<and> apply_changes id_env
        (operationFactory OpSet (Num 9)
           (of_target (Str ''#/a'') (selectorWrapper two_leaves_selector (Ref 0))))
        two_leaves_heap
      = Inr (Ref 1, two_leaves_heap @ [Obj ObjectPrototype [(''p'', Num 9), (''q'', Num 2)]])"
proof -
  note t = pointer_resolution[of "[(''#/b'', Updater (Num 7) OpSet)]" "Updater (Num 9) OpSet"
      "''#/a''" id_env two_leaves_heap "Num 2" "''/b''"]
  have v: "startsWith ''#/a'' ''#'' \<and> length ''#/a'' > 1" by (simp add: startsWith_def)
  have ne: "[(''#/b'', Updater (Num 7) OpSet)] \<noteq> []" by simp
  have d: "''#/a'' \<noteq> marker_string ''/b''" by (simp add: marker_string_def)
  have 1: "toUpdateCoro [(''#/b'', Updater (Num 7) OpSet)] (Updater (Num 9) OpSet) ''#/a''
        = [(''#/b'', Updater (Num 7) OpSet), (''#/a'', Updater (Num 9) OpSet)]"
    using t v by simp
  have 2: "selectTransform id_env [(''#/b'', Updater (Num 7) OpSet)] two_leaves_heap (Num 2) (Marker ''/b'')
        = Inr (Num 7, two_leaves_heap)"
    using t ne by (simp add: marker_string_def operationalMapper_def set_op_def)
  have 3: "selectTransform id_env
        (toUpdateCoro [(''#/b'', Updater (Num 7) OpSet)] (Updater (Num 9) OpSet) ''#/a'')
        two_leaves_heap (Num 2) (Marker ''/b'') = Inr (Num 7, two_leaves_heap)"
    using t d 2 by simp
  have 4: "apply_changes id_env
        (operationFactory OpSet (Num 9)
           (of_target (Str ''#/a'') (selectorWrapper two_leaves_selector (Ref 0))))
        two_leaves_heap
      = Inr (Ref 1, two_leaves_heap @ [Obj ObjectPrototype [(''p'', Num 9), (''q'', Num 2)]])"
    by code_simp
  show ?thesis using v 1 2 3 4 by blast
qed

section \<open>Claims about the operation registry\<close>

lemma merge_returns:
  assumes "''__proto__'' \<notin> fst ` set (own_props h old)"
    and "''__proto__'' \<notin> fst ` set (own_props h payload)"
  shows "\<exists>r h'. merge E h old payload = Inr (r, h')"
proof -
  have "''__proto__'' \<notin> fst ` set (concat (map (own_props h) [old, payload]))"
    using assms by auto
  then show ?thesis
    by (auto simp: merge_def object_keys_def object_assign_plain)
qed

text \<open>
  Claim C6 (registry leniency and totality), as amended. The four operations \<^verbatim>\<open>set\<close>,
  \<^verbatim>\<open>append\<close>, \<^verbatim>\<open>extend\<close> and \<^verbatim>\<open>delete\<close> return for every store, old value and payload.
  \<^verbatim>\<open>merge\<close> returns whenever neither the old value nor the payload has an own property
  \<^verbatim>\<open>__proto__\<close>, and what it throws otherwise is a \<^verbatim>\<open>TypeError\<close>. \<^verbatim>\<open>pipe\<close>, given a value that is
  neither \<^verbatim>\<open>null\<close> nor \<^verbatim>\<open>undefined\<close> and a function, does what the function does: it
  returns what the function returns, in the store extended by the cells the function has
  allocated, and it throws what the function throws. In each listed no-op case the
  operation returns the old value itself (for a reference: the same address) and leaves
  the store as it is, so nothing is cloned.
\<close>

theorem registry_noop_and_total:
  "(operation \<noteq> OpPipe \<and> operation \<noteq> OpMerge
      \<longrightarrow> (\<exists>r h'. operationalMapper E operation h old payload = Inr (r, h')))
   \<and> (''__proto__'' \<notin> fst ` set (own_props h old) \<and> ''__proto__'' \<notin> fst ` set (own_props h payload)
        \<longrightarrow> (\<exists>r h'. merge E h old payload = Inr (r, h')))
   \<and> (\<forall>e. merge E h old payload = Inl e \<longrightarrow> e = type_error)
   \<and> (\<forall>f. old \<noteq> Null \<and> old \<noteq> Undefined \<and> payload = Fun f \<longrightarrow>
          pipe E h old payload = (case fns E f old h of
              Inl thrown \<Rightarrow> Inl (Thrown thrown)
            | Inr (r, cells) \<Rightarrow> Inr (r, h @ cells)))
   \<and> (payload = Null \<or> payload = Undefined \<longrightarrow> set_op h old payload = Inr (old, h))
   \<and> (payload = Null \<or> payload = Undefined \<or> typeof payload \<noteq> ''object''
        \<or> object_keys h payload = Inr [] \<longrightarrow> merge E h old payload = Inr (old, h))
   \<and> (\<not> isArray h old \<or> \<not> isArray h payload \<or> elems h payload = []
        \<longrightarrow> extend_op h old payload = Inr (old, h))
   \<and> (payload = Null \<or> payload = Undefined \<or> \<not> isArray h old
        \<longrightarrow> append_op h old payload = Inr (old, h))
   \<and> (payload = Null \<or> payload = Undefined \<longrightarrow> deleteOp h old payload = Inr (old, h))
   \<and> (typeof payload \<noteq> ''function'' \<or> old = Null \<or> old = Undefined
        \<longrightarrow> pipe E h old payload = Inr (old, h))"
proof (intro conjI)
  show "operation \<noteq> OpPipe \<and> operation \<noteq> OpMerge
      \<longrightarrow> (\<exists>r h'. operationalMapper E operation h old payload = Inr (r, h'))"
    using deleteOp_returns[of h old payload]
    by (cases operation)
       (auto simp: operationalMapper_def set_op_def append_op_def extend_op_def alloc_def)
  show "''__proto__'' \<notin> fst ` set (own_props h old) \<and> ''__proto__'' \<notin> fst ` set (own_props h payload)
        \<longrightarrow> (\<exists>r h'. merge E h old payload = Inr (r, h'))"
    using merge_returns[of h old payload E] by blast
  show "\<forall>e. merge E h old payload = Inl e \<longrightarrow> e = type_error"
    by (auto dest: merge_throws)
  show "\<forall>f. old \<noteq> Null \<and> old \<noteq> Undefined \<and> payload = Fun f \<longrightarrow>
          pipe E h old payload = (case fns E f old h of
              Inl thrown \<Rightarrow> Inl (Thrown thrown)
            | Inr (r, cells) \<Rightarrow> Inr (r, h @ cells))"
    by (auto simp: pipe_def call_def typeof_def)
  show "payload = Null \<or> payload = Undefined \<longrightarrow> set_op h old payload = Inr (old, h)"
    by (auto simp: set_op_def)
  show "payload = Null \<or> payload = Undefined \<or> typeof payload \<noteq> ''object''
        \<or> object_keys h payload = Inr [] \<longrightarrow> merge E h old payload = Inr (old, h)"
    by (auto simp: merge_def)
  show "\<not> isArray h old \<or> \<not> isArray h payload \<or> elems h payload = []
        \<longrightarrow> extend_op h old payload = Inr (old, h)"
    by (auto simp: extend_op_def)
  show "payload = Null \<or> payload = Undefined \<or> \<not> isArray h old
        \<longrightarrow> append_op h old payload = Inr (old, h)"
    by (auto simp: append_op_def)
  show "payload = Null \<or> payload = Undefined \<longrightarrow> deleteOp h old payload = Inr (old, h)"
    by (auto simp: deleteOp_def)
  show "typeof payload \<noteq> ''function'' \<or> old = Null \<or> old = Undefined
        \<longrightarrow> pipe E h old payload = Inr (old, h)"
    by (auto simp: pipe_def)
qed

text \<open>The theorem at a payload of \<^verbatim>\<open>null\<close>, at a callback that returns a new array and at a
  callback that throws.\<close>

theorem registry_noop_and_total_witness:
  "operationalMapper id_env OpDelete single_heap (Ref 0) Null = Inr (Ref 0, single_heap)
   \<and> set_op single_heap (Ref 0) Null = Inr (Ref 0, single_heap)
   \<and> merge id_env single_heap (Ref 0) Null = Inr (Ref 0, single_heap)
   \<and> extend_op single_heap (Ref 0) Null = Inr (Ref 0, single_heap)
   \<and> append_op single_heap (Ref 0) Null = Inr (Ref 0, single_heap)
   \<and> deleteOp single_heap (Ref 0) Null = Inr (Ref 0, single_heap)
   \<and> pipe id_env single_heap (Ref 0) Null = Inr (Ref 0, single_heap)
   \<and> pipe wrap_env single_heap (Ref 0) (Fun (UserFn 0))
       = Inr (Ref 1, single_heap @ [Arr [Some (Ref 0)]])
   \<and> pipe throwing_env single_heap (Ref 0) (Fun (UserFn 0)) = Inl (Thrown (Str ''boom''))"
proof -
  note t = registry_noop_and_total[of OpDelete id_env single_heap "Ref 0" Null]
  note tw = registry_noop_and_total[of OpDelete wrap_env single_heap "Ref 0" "Fun (UserFn 0)"]
  note tt = registry_noop_and_total[of OpDelete throwing_env single_heap "Ref 0" "Fun (UserFn 0)"]
  have b: "typeof Null \<noteq> ''function'' \<or> Ref 0 = Null \<or> Ref 0 = Undefined"
    by (simp add: typeof_def)
  have c: "\<not> isArray single_heap (Ref 0) \<or> \<not> isArray single_heap Null \<or> elems single_heap Null = []"
    by (simp add: isArray_def)
  have d: "operationalMapper id_env OpDelete single_heap (Ref 0) Null = deleteOp single_heap (Ref 0) Null"
    by (simp add: operationalMapper_def)
  have len: "length single_heap = 1" by (simp add: single_heap_def)
  have w: "fns wrap_env (UserFn 0) (Ref 0) single_heap = Inr (Ref 1, [Arr [Some (Ref 0)]])"
    by (simp add: wrap_env_def std_env_def wrap_fns_def len)
  have th: "fns throwing_env (UserFn 0) (Ref 0) single_heap = Inl (Str ''boom'')"
    by (simp add: throwing_env_def std_env_def throwing_fns_def)
  from tw have "pipe wrap_env single_heap (Ref 0) (Fun (UserFn 0))
      = (case fns wrap_env (UserFn 0) (Ref 0) single_heap of
              Inl thrown \<Rightarrow> Inl (Thrown thrown)
            | Inr (r, cells) \<Rightarrow> Inr (r, single_heap @ cells))"
    by blast
  then have 8: "pipe wrap_env single_heap (Ref 0) (Fun (UserFn 0))
       = Inr (Ref 1, single_heap @ [Arr [Some (Ref 0)]])"
    unfolding w by simp
  from tt have "pipe throwing_env single_heap (Ref 0) (Fun (UserFn 0))
      = (case fns throwing_env (UserFn 0) (Ref 0) single_heap of
              Inl thrown \<Rightarrow> Inl (Thrown thrown)
            | Inr (r, cells) \<Rightarrow> Inr (r, single_heap @ cells))"
    by blast
  then have 9: "pipe throwing_env single_heap (Ref 0) (Fun (UserFn 0)) = Inl (Thrown (Str ''boom''))"
    unfolding th by simp
  from t have 5: "deleteOp single_heap (Ref 0) Null = Inr (Ref 0, single_heap)" by blast
  from t have 2: "set_op single_heap (Ref 0) Null = Inr (Ref 0, single_heap)" by blast
  from t have 3: "merge id_env single_heap (Ref 0) Null = Inr (Ref 0, single_heap)" by blast
  from t c have 4: "extend_op single_heap (Ref 0) Null = Inr (Ref 0, single_heap)" by blast
  from t have 6: "append_op single_heap (Ref 0) Null = Inr (Ref 0, single_heap)" by blast
  from t b have 7: "pipe id_env single_heap (Ref 0) Null = Inr (Ref 0, single_heap)" by blast
  show ?thesis using d 2 3 4 5 6 7 8 9 by simp
qed

text \<open>The claim as stated, that no operation ever throws, fails twice: \<^verbatim>\<open>pipe\<close> throws what
  its callback throws, and \<^verbatim>\<open>merge\<close> of \<^verbatim>\<open>{ ['__proto__']: f, name: 'x' }\<close> throws a
  \<^verbatim>\<open>TypeError\<close>, because \<^verbatim>\<open>Object.assign\<close> makes the function \<open>f\<close> the prototype of the new
  object and then assigns to \<^verbatim>\<open>name\<close>, which a function has as a read-only property.\<close>

theorem operation_throws_counterexample:
  "pipe throwing_env [] (Num 1) (Fun (UserFn 0)) = Inl (Thrown (Str ''boom''))
   \<and> merge id_env fn_proto_heap (Num 0) (Ref 0) = Inl type_error"
  by code_simp

section \<open>Merging an array\<close>

lemma own_props_Arr: "heap_get h a = Some (Arr xs) \<Longrightarrow> own_props h (Ref a) = index_props xs"
  by (simp add: own_props_def)

lemma show_nat_digits: "c \<in> set (show_nat n) \<Longrightarrow> c \<in> set digits10"
proof (induction n rule: show_nat.induct)
  case (1 n)
  have d: "digits10 ! m \<in> set digits10" if "m < 10" for m
    using that by (intro nth_mem) (simp add: digits10_def)
  show ?case
  proof (cases "n < 10")
    case True
    then show ?thesis using 1(2) d[of n] by (subst (asm) show_nat.simps) simp
  next
    case False
    then have "c \<in> set (show_nat (n div 10)) \<or> c = digits10 ! (n mod 10)"
      using 1(2) by (subst (asm) show_nat.simps) auto
    then show ?thesis using 1(1)[OF False] d[of "n mod 10"] by auto
  qed
qed

lemma show_nat_not_proto: "show_nat i \<noteq> ''__proto__''"
proof
  assume "show_nat i = ''__proto__''"
  then have "CHR ''_'' \<in> set (show_nat i)" by simp
  then have "CHR ''_'' \<in> set digits10" by (rule show_nat_digits)
  then show False by (simp add: digits10_def)
qed

text \<open>
  Claim C10 (merge treats an array payload as an object), as amended. Let the store be well
  formed and the payload an array with at least one element that is there (not a hole).
  Then \<^verbatim>\<open>merge\<close> is \<^verbatim>\<open>Object.assign({}, old, payload)\<close> and not a no-op. When the old value has no
  own property \<^verbatim>\<open>__proto__\<close> it returns a reference to a new plain object. Whenever it
  returns, the result is a reference to a new object, the original store is untouched, and
  the object holds under the numeral of each index of the array whose element is there
  that element, whatever the old value had there, and under every other key except
  \<^verbatim>\<open>__proto__\<close> what the old value has as own property.
\<close>

theorem merge_array_payload:
  assumes "wf_heap h" and "heap_get h a = Some (Arr xs)" and "\<exists>i<length xs. xs ! i \<noteq> None"
  shows "merge E h old (Ref a) = object_assign E h [old, Ref a]
    \<and> merge E h old (Ref a) \<noteq> Inr (old, h)
    \<and> (''__proto__'' \<notin> fst ` set (own_props h old)
         \<longrightarrow> (\<exists>ps. merge E h old (Ref a) = Inr (Ref (length h), h @ [Obj ObjectPrototype ps])))
    \<and> (\<forall>r h'. merge E h old (Ref a) = Inr (r, h') \<longrightarrow>
          r = Ref (length h) \<and> heap_get h (length h) = None \<and> prefix h h'
          \<and> (\<exists>p ps. heap_get h' (length h) = Some (Obj p ps)
               \<and> (\<forall>i v. i < length xs \<and> xs ! i = Some v \<longrightarrow> map_of ps (show_nat i) = Some v)
               \<and> (\<forall>k. k \<noteq> ''__proto__'' \<and> k \<notin> fst ` set (index_props xs)
                     \<longrightarrow> map_of ps k = map_of (own_props h old) k)))"
proof -
  have own: "own_props h (Ref a) = index_props xs" using assms(2) by (rule own_props_Arr)
  have keys: "object_keys h (Ref a) = Inr (map fst (index_props xs))"
    by (simp add: object_keys_def own)
  from assms(3) obtain i where "i < length xs" "xs ! i \<noteq> None" by blast
  then have "show_nat i \<in> fst ` set (index_props xs)" by (auto simp: index_props_key)
  then have "index_props xs \<noteq> []" by auto
  then have ne: "length (map fst (index_props xs)) \<noteq> 0" by simp
  have eq: "merge E h old (Ref a) = object_assign E h [old, Ref a]"
    using ne by (simp add: merge_def keys typeof_def)
  have res: "r = Ref (length h) \<and> heap_get h (length h) = None \<and> prefix h h'
          \<and> (\<exists>p ps. heap_get h' (length h) = Some (Obj p ps)
               \<and> (\<forall>i v. i < length xs \<and> xs ! i = Some v \<longrightarrow> map_of ps (show_nat i) = Some v)
               \<and> (\<forall>k. k \<noteq> ''__proto__'' \<and> k \<notin> fst ` set (index_props xs)
                     \<longrightarrow> map_of ps k = map_of (own_props h old) k))"
    if run: "merge E h old (Ref a) = Inr (r, h')" for r h'
  proof -
    from run eq have oa: "object_assign E h [old, Ref a] = Inr (r, h')" by simp
    from object_assign_result[OF oa] obtain p ps where
      r: "r = Ref (length h)" and pre: "prefix h h'"
      and cell: "heap_get h' (length h) = Some (Obj p ps)"
      and mp: "\<forall>k. k \<noteq> ''__proto__''
                \<longrightarrow> map_of ps k = map_of (rev (concat (map (own_props h) [old, Ref a]))) k"
      by auto
    have d1: "distinct (map fst (own_props h old))" using assms(1) by (rule distinct_own_props)
    have both: "map_of (rev (concat (map (own_props h) [old, Ref a])))
        = map_of (own_props h old) ++ map_of (index_props xs)"
      by (simp add: own map_of_rev_distinct[OF d1] map_of_rev_distinct[OF distinct_index_keys])
    have mp': "map_of ps k = (map_of (own_props h old) ++ map_of (index_props xs)) k"
      if "k \<noteq> ''__proto__''" for k
      using mp that unfolding both by blast
    have idx: "map_of ps (show_nat i) = Some v" if "i < length xs \<and> xs ! i = Some v" for i v
    proof -
      have "map_of (index_props xs) (show_nat i) = Some v"
        using that by (simp add: map_of_index_props)
      then show ?thesis using mp'[OF show_nat_not_proto[of i]] by simp
    qed
    have oth: "map_of ps k = map_of (own_props h old) k"
      if "k \<noteq> ''__proto__'' \<and> k \<notin> fst ` set (index_props xs)" for k
    proof -
      have "map_of (index_props xs) k = None" using that by (simp add: map_of_eq_None_iff)
      then show ?thesis using mp'[of k] that by (simp add: map_add_def)
    qed
    show ?thesis using r pre cell idx oth by (auto simp: heap_get_def)
  qed
  have nz: "merge E h old (Ref a) \<noteq> Inr (old, h)"
  proof
    assume "merge E h old (Ref a) = Inr (old, h)"
    then have "object_assign E h [old, Ref a] = Inr (old, h)" using eq by simp
    then have "length h = Suc (length h)" by (auto dest: object_assign_result)
    then show False by simp
  qed
  have plain: "\<exists>ps. merge E h old (Ref a) = Inr (Ref (length h), h @ [Obj ObjectPrototype ps])"
    if "''__proto__'' \<notin> fst ` set (own_props h old)"
  proof -
    have "''__proto__'' \<notin> fst ` set (index_props xs)"
      unfolding index_props_key using show_nat_not_proto by metis
    then have "''__proto__'' \<notin> fst ` set (concat (map (own_props h) [old, Ref a]))"
      using that by (auto simp: own)
    then show ?thesis unfolding eq by (simp add: object_assign_plain)
  qed
  show ?thesis using eq nz plain res by blast
qed

text \<open>The theorem for \<^verbatim>\<open>merge({ a: 1, '0': 2 }, [7, 8])\<close>.\<close>

theorem merge_array_payload_witness:
  "wf_heap merge_heap \<and> heap_get merge_heap 1 = Some (Arr [Some (Num 7), Some (Num 8)])
   \<and> merge id_env merge_heap (Ref 0) (Ref 1)
      = Inr (Ref 2, merge_heap @ [Obj ObjectPrototype [(''0'', Num 7), (''a'', Num 1), (''1'', Num 8)]])
   \<and> prefix merge_heap (merge_heap @ [Obj ObjectPrototype [(''0'', Num 7), (''a'', Num 1), (''1'', Num 8)]])"
proof -
  let ?h' = "merge_heap @ [Obj ObjectPrototype [(''0'', Num 7), (''a'', Num 1), (''1'', Num 8)]]"
  have 1: "wf_heap merge_heap" by code_simp
  have 2: "heap_get merge_heap 1 = Some (Arr [Some (Num 7), Some (Num 8)])" by code_simp
  have 3: "\<exists>i<length [Some (Num 7), Some (Num 8)]. [Some (Num 7), Some (Num 8)] ! i \<noteq> None"
    by (rule exI[of _ 0]) simp
  have 4: "merge id_env merge_heap (Ref 0) (Ref 1) = Inr (Ref 2, ?h')" by code_simp
  note t = merge_array_payload[OF 1 2 3, of id_env "Ref 0"]
  from t 4 have 6: "prefix merge_heap ?h'" by blast
  show ?thesis using 1 2 4 6 by blast
qed

text \<open>The claim as stated fails for a non-empty array that has no element, \<^verbatim>\<open>new Array(3)\<close>:
  it has no keys and \<^verbatim>\<open>merge\<close> returns the old value. And \<^verbatim>\<open>merge\<close> does not return an object
  when \<^verbatim>\<open>Object.assign\<close> throws, as it does for the old value
  \<^verbatim>\<open>{ ['__proto__']: f, name: 'x' }\<close>; for the old value \<^verbatim>\<open>{ ['__proto__']: arr, a: 1 }\<close> the
  new object has the array \<open>arr\<close> as its prototype and no property \<^verbatim>\<open>__proto__\<close>.\<close>

theorem merge_holes_counterexample:
  "isArray holes_heap (Ref 1) \<and> length (elems holes_heap (Ref 1)) = 3
   \<and> merge id_env holes_heap (Ref 0) (Ref 1) = Inr (Ref 0, holes_heap)
   \<and> isArray fn_proto_array_heap (Ref 1) \<and> length (elems fn_proto_array_heap (Ref 1)) = 1
   \<and> merge id_env fn_proto_array_heap (Ref 0) (Ref 1) = Inl type_error
   \<and> merge id_env array_proto_heap (Ref 0) (Ref 1)
       = Inr (Ref 2, array_proto_heap @ [Obj (Ref 1) [(''a'', Num 1), (''0'', Num 7)]])"
  by code_simp

section \<open>The end-to-end example\<close>

text \<open>
  Claim C3 (end-to-end example). For the object
  \<^verbatim>\<open>{ person: { name: 'John Cena', address: { permanent: 'Nepal', temporary: 'China' } } }\<close>
  and the selector \<^verbatim>\<open>{ person: { address: { permanent: '#' } } }\<close>, which \<^verbatim>\<open>reduce\<close> accepts,
  the session \<^verbatim>\<open>.set('Holy land').apply()\<close> returns an object that reads
  \<^verbatim>\<open>{ person: { name: 'John Cena', address: { permanent: 'Holy land', temporary: 'China' } } }\<close>.
  Its \<^verbatim>\<open>person.address\<close> is a reference different from the original's, the leaves
  \<^verbatim>\<open>'John Cena'\<close> and \<^verbatim>\<open>'China'\<close> are as before, and the cells of the original are untouched.
  This holds in every environment.
\<close>

theorem end_to_end_example:
  "reduce person_selector = Inr person_selector
   \<and> apply_changes E
        (operationFactory OpSet (Str ''Holy land'') (selectorWrapper person_selector (Ref 0)))
        person_heap = Inr (Ref 3, person_result_heap)
   \<and> snapshot 4 person_result_heap (Ref 3) = Some person_expected
   \<and> get_prop person_result_heap (get_prop person_result_heap (Ref 3) ''person'') ''address''
       \<noteq> get_prop person_heap (get_prop person_heap (Ref 0) ''person'') ''address''
   \<and> get_prop person_result_heap (get_prop person_result_heap (Ref 3) ''person'') ''name''
       = Str ''John Cena''
   \<and> get_prop person_result_heap
        (get_prop person_result_heap (get_prop person_result_heap (Ref 3) ''person'') ''address'')
        ''temporary'' = Str ''China''
   \<and> take (length person_heap) person_result_heap = person_heap"
proof -
  have 1: "reduce person_selector = Inr person_selector" by code_simp
  have 2: "apply_changes E
        (operationFactory OpSet (Str ''Holy land'') (selectorWrapper person_selector (Ref 0)))
        person_heap = Inr (Ref 3, person_result_heap)"
    by code_simp
  have 3: "snapshot 4 person_result_heap (Ref 3) = Some person_expected" by code_simp
  have 4: "get_prop person_result_heap (get_prop person_result_heap (Ref 3) ''person'') ''address''
       \<noteq> get_prop person_heap (get_prop person_heap (Ref 0) ''person'') ''address''"
    by code_simp
  have 5: "get_prop person_result_heap (get_prop person_result_heap (Ref 3) ''person'') ''name''
       = Str ''John Cena''" by code_simp
  have 6: "get_prop person_result_heap
        (get_prop person_result_heap (get_prop person_result_heap (Ref 3) ''person'') ''address'')
        ''temporary'' = Str ''China''" by code_simp
  have 7: "take (length person_heap) person_result_heap = person_heap" by code_simp
  show ?thesis using 1 2 3 4 5 6 7 by blast
qed

text \<open>The example in a concrete environment.\<close>

theorem end_to_end_example_witness:
  "apply_changes id_env
        (operationFactory OpSet (Str ''Holy land'') (selectorWrapper person_selector (Ref 0)))
        person_heap = Inr (Ref 3, person_result_heap)
   \<and> snapshot 4 person_result_heap (Ref 3) = Some person_expected"
  using end_to_end_example[of id_env] by blast

section \<open>Claims about the traversal\<close>

lemma get_prop_Obj:
  "heap_get h c = Some (Obj p ps) \<Longrightarrow> distinct (map fst ps) \<Longrightarrow> get_prop h (Ref c) k = lookup ps k"
  by (simp add: get_prop_def own_props_def lookup_def map_of_ordered)

text \<open>
  Claim C1 (structural sharing), as amended. Let the store be well formed, the object a
  value of that store and the selector valid. Whenever \<^verbatim>\<open>apply()\<close> returns, its result shares
  with the original everything the selector does not address, the key \<^verbatim>\<open>__proto__\<close> apart:
  at every mapping of the selector the result is the original itself or a new object that
  holds, under every key outside the selector other than \<^verbatim>\<open>__proto__\<close>, the very value of
  the original's own property (for an object or array: the same address), and this holds
  again below every key of the selector that is an own key of the original. In particular
  every own property of the result outside the top-level keys of the selector and other
  than \<^verbatim>\<open>__proto__\<close> is identical to the original's. The cells of the original store are all
  still there, unchanged.
\<close>

theorem structural_sharing:
  assumes "wf_heap h" and "wf_val (length h) (originalObject s)"
    and "valid_selector (selectorObject s)"
    and "apply_changes E s h = Inr (r, h')"
  shows "shares (length h) h h' (originalObject s) (selectorObject s) r
    \<and> prefix h h'
    \<and> (\<forall>es k. selectorObject s = Mapping es \<longrightarrow> k \<notin> set (map fst es) \<longrightarrow> k \<noteq> ''__proto__''
          \<longrightarrow> get_prop h' r k = get_prop h (originalObject s) k)"
proof -
  let ?node = "originalObject s"
  have run: "selectTransform E (toUpdate s) h ?node (selectorObject s) = Inr (r, h')"
    using assms(4) by (simp add: apply_changes_def)
  have sh: "shares (length h) h h' ?node (selectorObject s) r"
    using select_shares(1)[of E "toUpdate s" h ?node "selectorObject s" r h'] run assms(1,2,3)
    by blast
  have pre: "prefix h h'" using select_frame(1) run by blast
  have "get_prop h' r k = get_prop h ?node k"
    if sel: "selectorObject s = Mapping es" and k: "k \<notin> set (map fst es)"
      and kp: "k \<noteq> ''__proto__''" for es k
  proof (cases "r = ?node")
    case True
    then show ?thesis
      using own_props_prefix[OF pre assms(2)] by (simp add: get_prop_def)
  next
    case False
    then obtain c p' ps' where r: "r = Ref c" and cell: "heap_get h' c = Some (Obj p' ps')"
      and d: "distinct (map fst ps')"
      and se: "same_except (''__proto__'' # map fst es) (own_props h ?node) ps'"
      using sh sel by (auto split: jsval.splits option.splits hobj.splits)
    have "map_of ps' k = map_of (own_props h ?node) k"
      using se k kp by (simp add: same_except_iff)
    then show ?thesis
      using r get_prop_Obj[OF cell d] by (simp add: get_prop_def lookup_def)
  qed
  then show ?thesis using sh pre by blast
qed

text \<open>The theorem on \<^verbatim>\<open>{ a: { x: 1, y: { w: 0 } }, b: { z: 2 } }\<close> with the selector
  \<^verbatim>\<open>{ a: { x: '#' } }\<close> and \<^verbatim>\<open>set(5)\<close>: the result's \<^verbatim>\<open>b\<close> is the original's \<^verbatim>\<open>b\<close>.\<close>

theorem structural_sharing_witness:
  "wf_heap sharing_heap \<and> wf_val (length sharing_heap) (Ref 0) \<and> valid_selector sharing_selector
   \<and> apply_changes id_env (operationFactory OpSet (Num 5) (selectorWrapper sharing_selector (Ref 0)))
        sharing_heap
      = Inr (Ref 4, sharing_heap @ [Obj ObjectPrototype [(''a'', Ref 5), (''b'', Ref 2)],
                                     Obj ObjectPrototype [(''x'', Num 5), (''y'', Ref 3)]])
   \<and> shares 4 sharing_heap
        (sharing_heap @ [Obj ObjectPrototype [(''a'', Ref 5), (''b'', Ref 2)],
                         Obj ObjectPrototype [(''x'', Num 5), (''y'', Ref 3)]])
        (Ref 0) sharing_selector (Ref 4)
   \<and> get_prop (sharing_heap @ [Obj ObjectPrototype [(''a'', Ref 5), (''b'', Ref 2)],
                                 Obj ObjectPrototype [(''x'', Num 5), (''y'', Ref 3)]]) (Ref 4) ''b''
      = get_prop sharing_heap (Ref 0) ''b''
   \<and> get_prop sharing_heap (Ref 0) ''b'' = Ref 2"
proof -
  let ?s = "operationFactory OpSet (Num 5) (selectorWrapper sharing_selector (Ref 0))"
  let ?h' = "sharing_heap @ [Obj ObjectPrototype [(''a'', Ref 5), (''b'', Ref 2)],
                             Obj ObjectPrototype [(''x'', Num 5), (''y'', Ref 3)]]"
  have 1: "wf_heap sharing_heap" by code_simp
  have 2: "wf_val (length sharing_heap) (Ref 0)" by code_simp
  have 3: "valid_selector sharing_selector" by code_simp
  have 4: "apply_changes id_env ?s sharing_heap = Inr (Ref 4, ?h')" by code_simp
  have o: "originalObject ?s = Ref 0" by code_simp
  have sl: "selectorObject ?s = sharing_selector" by code_simp
  have len: "length sharing_heap = 4" by code_simp
  have b: "get_prop sharing_heap (Ref 0) ''b'' = Ref 2" by code_simp
  have nk: "''b'' \<notin> set (map fst [(''a'', Mapping [(''x'', Marker [])])])" by simp
  have np: "''b'' \<noteq> ''__proto__''" by simp
  note t = structural_sharing[of sharing_heap ?s id_env "Ref 4" ?h', unfolded o sl len, OF 1 2[unfolded len] 3 4]
  from t have 5: "shares 4 sharing_heap ?h' (Ref 0) sharing_selector (Ref 4)" by blast
  from t nk np have 6: "get_prop ?h' (Ref 4) ''b'' = get_prop sharing_heap (Ref 0) ''b''"
    unfolding sharing_selector_def by blast
  show ?thesis using 1 2 3 4 5 6 b by blast
qed

text \<open>The claim as stated fails for an own property \<^verbatim>\<open>__proto__\<close>, which \<^verbatim>\<open>Object.assign\<close> does
  not copy: it assigns it, and the assignment makes the value the prototype of the clone.
  For \<^verbatim>\<open>{ "__proto__": X, "a": 1 }\<close> with \<open>X\<close> the object \<^verbatim>\<open>{ "__proto__": 7 }\<close>, the selector
  \<^verbatim>\<open>{ a: '#' }\<close> and \<^verbatim>\<open>set(2)\<close>, the selector does not address \<open>X\<close>, yet the result has no own
  property \<^verbatim>\<open>__proto__\<close> and reading \<^verbatim>\<open>__proto__\<close> from it gives 7, not \<open>X\<close>.\<close>

theorem own_proto_not_shared_counterexample:
  "wf_heap nested_proto_heap \<and> wf_val (length nested_proto_heap) (Ref 0)
   \<and> get_prop nested_proto_heap (Ref 0) ''__proto__'' = Ref 1
   \<and> apply_changes id_env
        (operationFactory OpSet (Num 2) (selectorWrapper (Mapping [(''a'', Marker [])]) (Ref 0)))
        nested_proto_heap
      = Inr (Ref 2, nested_proto_heap @ [Obj (Ref 1) [(''a'', Num 2)]])
   \<and> get_prop (nested_proto_heap @ [Obj (Ref 1) [(''a'', Num 2)]]) (Ref 2) ''__proto__'' = Undefined
   \<and> js_get id_env (nested_proto_heap @ [Obj (Ref 1) [(''a'', Num 2)]]) 2 ''__proto__'' = Inr (Num 7)"
  by code_simp

text \<open>
  Claim C2 (immutability). Callbacks are pure (they cannot write to a cell, see the section
  on callbacks). Whenever \<^verbatim>\<open>apply()\<close> returns, the store it leaves extends the store it was
  called in: every cell that existed before is there at the same address with the same
  content. Hence any snapshot of the original object taken before the call is again its
  snapshot after the call.
\<close>

theorem immutability:
  assumes "apply_changes E s h = Inr (r, h')"
  shows "prefix h h'
    \<and> (\<forall>a cell. heap_get h a = Some cell \<longrightarrow> heap_get h' a = Some cell)
    \<and> (\<forall>n t. snapshot n h (originalObject s) = Some t
          \<longrightarrow> snapshot n h' (originalObject s) = Some t)"
proof -
  have "selectTransform E (toUpdate s) h (originalObject s) (selectorObject s) = Inr (r, h')"
    using assms by (simp add: apply_changes_def)
  then have pre: "prefix h h'" using select_frame(1) by blast
  then show ?thesis
    by (auto intro: snapshot_prefix prefix_heap_get)
qed

text \<open>The theorem on the same object with \<^verbatim>\<open>pipe\<close> and a callback that allocates.\<close>

theorem immutability_witness:
  "apply_changes wrap_env
        (operationFactory OpPipe (Fun (UserFn 0)) (selectorWrapper sharing_selector (Ref 0)))
        sharing_heap
      = Inr (Ref 4, sharing_heap @ [Obj ObjectPrototype [(''a'', Ref 5), (''b'', Ref 2)],
                                     Obj ObjectPrototype [(''x'', Ref 6), (''y'', Ref 3)],
                                     Arr [Some (Num 1)]])
   \<and> snapshot 4 sharing_heap (Ref 0)
      = Some (ObjT [(''a'', ObjT [(''x'', Leaf (Num 1)), (''y'', ObjT [(''w'', Leaf (Num 0))])]),
                    (''b'', ObjT [(''z'', Leaf (Num 2))])])
   \<and> snapshot 4 (sharing_heap @ [Obj ObjectPrototype [(''a'', Ref 5), (''b'', Ref 2)],
                                 Obj ObjectPrototype [(''x'', Ref 6), (''y'', Ref 3)],
                                 Arr [Some (Num 1)]]) (Ref 0)
      = Some (ObjT [(''a'', ObjT [(''x'', Leaf (Num 1)), (''y'', ObjT [(''w'', Leaf (Num 0))])]),
                    (''b'', ObjT [(''z'', Leaf (Num 2))])])"
proof -
  let ?s = "operationFactory OpPipe (Fun (UserFn 0)) (selectorWrapper sharing_selector (Ref 0))"
  let ?h' = "sharing_heap @ [Obj ObjectPrototype [(''a'', Ref 5), (''b'', Ref 2)],
                             Obj ObjectPrototype [(''x'', Ref 6), (''y'', Ref 3)],
                             Arr [Some (Num 1)]]"
  let ?t = "ObjT [(''a'', ObjT [(''x'', Leaf (Num 1)), (''y'', ObjT [(''w'', Leaf (Num 0))])]),
                    (''b'', ObjT [(''z'', Leaf (Num 2))])]"
  have 1: "apply_changes wrap_env ?s sharing_heap = Inr (Ref 4, ?h')" by code_simp
  have o: "originalObject ?s = Ref 0" by code_simp
  have 2: "snapshot 4 sharing_heap (Ref 0) = Some ?t" by code_simp
  from immutability[OF 1, unfolded o] 2 have "snapshot 4 ?h' (Ref 0) = Some ?t" by blast
  then show ?thesis using 1 2 by blast
qed

lemma clone_plain:
  assumes "wf_heap h" and "''__proto__'' \<notin> fst ` set (own_props h node)"
  shows "\<exists>psc. object_assign E h [node] = Inr (Ref (length h), h @ [Obj ObjectPrototype psc])
     \<and> map_of psc = map_of (own_props h node)"
proof -
  let ?psc = "foldl (\<lambda>ps (k, v). AList.update k v ps) [] (own_props h node)"
  have np: "''__proto__'' \<notin> fst ` set (concat (map (own_props h) [node]))"
    using assms(2) by simp
  have "object_assign E h [node] = Inr (Ref (length h), h @ [Obj ObjectPrototype ?psc])"
    using object_assign_plain[OF np, of E] by simp
  moreover have "map_of ?psc = map_of (own_props h node)"
    using distinct_own_props[OF assms(1), of node]
    by (simp add: map_of_foldl_update map_of_rev_distinct)
  ultimately show ?thesis by blast
qed

text \<open>
  Claim C4 (abort on a missing path), as amended. The child of a node under a key is its
  own property under the key or, when it has none, what \<^verbatim>\<open>Object.prototype\<close> provides. Let
  the store be well formed, let the node have no own property \<^verbatim>\<open>__proto__\<close>, and let the
  selector mapping consist of the entries \<open>pre\<close>, none of them under the key \<^verbatim>\<open>__proto__\<close>,
  followed by a key \<open>k\<close> not among them under which the node has no child (the child is
  \<^verbatim>\<open>undefined\<close> or \<^verbatim>\<open>null\<close>), followed by any further entries. Then \<^verbatim>\<open>selectTransform\<close> does what
  it does for the entries \<open>pre\<close> alone, except that where that run returns (the clone, or
  the node after an earlier abort) it returns the original node itself: the updates that
  the earlier keys received are lost with the clone. It raises an error exactly when the
  run over the earlier entries raises it, and then the same one; in particular it raises
  none when \<open>k\<close> is the first key. The store it returns in extends the original one.
\<close>

theorem abort_on_missing_path:
  assumes "wf_heap h" and "''__proto__'' \<notin> fst ` set (own_props h node)"
    and "''__proto__'' \<notin> set (map fst pre)" and "k \<notin> set (map fst pre)"
    and "child h node k = Undefined \<or> child h node k = Null"
  shows "selectTransform E tu h node (Mapping (pre @ (k, sub) # post))
      = (case selectTransform E tu h node (Mapping pre) of
           Inl e \<Rightarrow> Inl e
         | Inr (r, h') \<Rightarrow> Inr (node, h'))
    \<and> (\<exists>h'. selectTransform E tu h node (Mapping ((k, sub) # post)) = Inr (node, h'))
    \<and> (\<forall>r h'. selectTransform E tu h node (Mapping (pre @ (k, sub) # post)) = Inr (r, h')
          \<longrightarrow> r = node \<and> prefix h h')"
proof -
  from clone_plain[OF assms(1,2), of E] obtain psc where
    oa: "object_assign E h [node] = Inr (Ref (length h), h @ [Obj ObjectPrototype psc])"
    and mp: "map_of psc = map_of (own_props h node)"
    by blast
  let ?h1 = "h @ [Obj ObjectPrototype psc]"
  have cell: "heap_get ?h1 (length h) = Some (Obj ObjectPrototype psc)"
    by (simp add: heap_get_def)
  have "plain_read psc k = child h node k"
    unfolding child_def by (rule plain_read_cong) (simp add: mp)
  then have miss: "plain_read psc k = Undefined \<or> plain_read psc k = Null"
    using assms(5) by simp
  have split: "selectLoop E tu ?h1 node (length h) (pre @ (k, sub) # post)
      = (case selectLoop E tu ?h1 node (length h) pre of
           Inl e \<Rightarrow> Inl e
         | Inr (r, h') \<Rightarrow> Inr (node, h'))"
    using cell assms(3,4) miss by (rule loop_split)
  have eq: "selectTransform E tu h node (Mapping (pre @ (k, sub) # post))
      = (case selectTransform E tu h node (Mapping pre) of
           Inl e \<Rightarrow> Inl e
         | Inr (r, h') \<Rightarrow> Inr (node, h'))"
    by (simp add: oa split)
  have first: "selectTransform E tu h node (Mapping ((k, sub) # post)) = Inr (node, ?h1)"
    using miss by (simp add: oa js_get_plain_read[OF cell])
  have ret: "r = node \<and> prefix h h'"
    if run: "selectTransform E tu h node (Mapping (pre @ (k, sub) # post)) = Inr (r, h')" for r h'
  proof -
    have "prefix h h'" using select_frame(1) run by blast
    moreover have "r = node"
      using run unfolding eq by (auto split: sum.splits)
    ultimately show ?thesis by simp
  qed
  show ?thesis using eq first ret by blast
qed

text \<open>The theorem on \<^verbatim>\<open>{ a: 1 }\<close> with the selector \<^verbatim>\<open>{ a: '#', b: '#' }\<close> and \<^verbatim>\<open>set(5)\<close>: the
  update of \<^verbatim>\<open>a\<close> is lost with the clone and the original comes back.\<close>

theorem abort_on_missing_path_witness:
  "wf_heap missing_heap \<and> child missing_heap (Ref 0) ''b'' = Undefined
   \<and> selectTransform id_env set_five missing_heap (Ref 0) (Mapping [(''a'', Marker [])])
      = Inr (Ref 1, missing_heap @ [Obj ObjectPrototype [(''a'', Num 5)]])
   \<and> selectTransform id_env set_five missing_heap (Ref 0) (Mapping missing_selector_entries)
      = Inr (Ref 0, missing_heap @ [Obj ObjectPrototype [(''a'', Num 5)]])
   \<and> prefix missing_heap (missing_heap @ [Obj ObjectPrototype [(''a'', Num 5)]])"
proof -
  let ?h' = "missing_heap @ [Obj ObjectPrototype [(''a'', Num 5)]]"
  have 1: "wf_heap missing_heap" by code_simp
  have 2: "''__proto__'' \<notin> fst ` set (own_props missing_heap (Ref 0))" by code_simp
  have 3: "''__proto__'' \<notin> set (map fst [(''a'', Marker [])])" by simp
  have 4: "''b'' \<notin> set (map fst [(''a'', Marker [])])" by simp
  have 5: "child missing_heap (Ref 0) ''b'' = Undefined" by code_simp
  then have miss5: "child missing_heap (Ref 0) ''b'' = Undefined \<or> child missing_heap (Ref 0) ''b'' = Null"
    by simp
  have 6: "selectTransform id_env set_five missing_heap (Ref 0) (Mapping [(''a'', Marker [])])
      = Inr (Ref 1, ?h')" by code_simp
  have e: "missing_selector_entries = [(''a'', Marker [])] @ (''b'', Marker []) # []"
    by (simp add: missing_selector_entries_def)
  note t = abort_on_missing_path[OF 1 2 3 4 miss5, of id_env set_five "Marker []" "[]"]
  from t have "selectTransform id_env set_five missing_heap (Ref 0)
        (Mapping ([(''a'', Marker [])] @ (''b'', Marker []) # []))
      = (case selectTransform id_env set_five missing_heap (Ref 0) (Mapping [(''a'', Marker [])]) of
           Inl e \<Rightarrow> Inl e
         | Inr (r, h') \<Rightarrow> Inr (Ref 0, h'))"
    by (elim conjE)
  then have 7: "selectTransform id_env set_five missing_heap (Ref 0) (Mapping missing_selector_entries)
      = Inr (Ref 0, ?h')"
    unfolding 6 e by simp
  from t 7 have 8: "prefix missing_heap ?h'" unfolding e by blast
  show ?thesis using 1 5 6 7 8 by blast
qed

text \<open>The claim as stated fails in four ways. With no operation queued the marker under
  \<^verbatim>\<open>a\<close> is reached before the missing \<^verbatim>\<open>b\<close> and the error of the empty ledger is raised. The
  object \<^verbatim>\<open>{ a: 1 }\<close> has no own property \<^verbatim>\<open>toString\<close>, but the clone inherits one from
  \<^verbatim>\<open>Object.prototype\<close>, so the selector \<^verbatim>\<open>{ toString: '#' }\<close> with \<^verbatim>\<open>set(5)\<close> is not aborted and
  a new object comes back. The object \<^verbatim>\<open>{ "__proto__": { "b": 1 }, "a": 1 }\<close> has no child
  \<^verbatim>\<open>b\<close>, but its clone has the object \<^verbatim>\<open>{ "b": 1 }\<close> as prototype and inherits \<^verbatim>\<open>b\<close>. And with the
  selector \<^verbatim>\<open>{ ['__proto__']: '#', b: '#' }\<close> and \<^verbatim>\<open>set\<close> of the object \<^verbatim>\<open>{ b: 5 }\<close>, the clone of
  \<^verbatim>\<open>{ a: 1 }\<close> receives that object as prototype before \<^verbatim>\<open>b\<close> is looked up.\<close>

theorem abort_raises_counterexample:
  "child missing_heap (Ref 0) ''b'' = Undefined
   \<and> selectTransform id_env [] missing_heap (Ref 0) (Mapping missing_selector_entries)
      = Inl no_operation
   \<and> get_prop missing_heap (Ref 0) ''toString'' = Undefined
   \<and> selectTransform id_env set_five missing_heap (Ref 0) (Mapping [(''toString'', Marker [])])
      = Inr (Ref 1, missing_heap @ [Obj ObjectPrototype [(''a'', Num 1), (''toString'', Num 5)]])
   \<and> child inherit_heap (Ref 0) ''b'' = Undefined
   \<and> selectTransform id_env set_five inherit_heap (Ref 0) (Mapping [(''b'', Marker [])])
      = Inr (Ref 2, inherit_heap @ [Obj (Ref 1) [(''a'', Num 1), (''b'', Num 5)]])
   \<and> child proto_key_heap (Ref 0) ''b'' = Undefined
   \<and> selectTransform id_env set_second proto_key_heap (Ref 0) (Mapping proto_key_entries)
      = Inr (Ref 2, proto_key_heap @ [Obj (Ref 1) [(''a'', Num 1), (''b'', Ref 1)]])"
  by code_simp




text \<open>
  Claim C5 (no operation queued). A call of \<^verbatim>\<open>selectTransform\<close> on a pointer marker raises the
  error that an operation is required exactly when the ledger has no entry at all. When the
  ledger is not empty and has no entry for the marker, the call returns the node it was
  given and leaves the store as it is. For a whole \<^verbatim>\<open>apply()\<close>: it raises that error only
  with an empty ledger, and it raises it exactly when the ledger is empty and the run of
  the traversal arrives at a marker.
\<close>

theorem no_operation_queued:
  "(selectTransform E tu h node (Marker p) = Inl no_operation \<longleftrightarrow> tu = [])
   \<and> (tu \<noteq> [] \<and> map_of tu (if p = [] then ''default'' else marker_string p) = None
        \<longrightarrow> selectTransform E tu h node (Marker p) = Inr (node, h))
   \<and> (apply_changes E s h = Inl no_operation \<longrightarrow> toUpdate s = [])
   \<and> (apply_changes E s h = Inl no_operation
        \<longleftrightarrow> toUpdate s = [] \<and> reaches E (toUpdate s) h (originalObject s) (selectorObject s))"
proof (intro conjI impI)
  show "selectTransform E tu h node (Marker p) = Inl no_operation \<longleftrightarrow> tu = []"
  proof
    assume "selectTransform E tu h node (Marker p) = Inl no_operation"
    then show "tu = []" by (rule select_no_operation)
  next
    assume "tu = []"
    then show "selectTransform E tu h node (Marker p) = Inl no_operation" by simp
  qed
  show "selectTransform E tu h node (Marker p) = Inr (node, h)"
    if "tu \<noteq> [] \<and> map_of tu (if p = [] then ''default'' else marker_string p) = None"
  proof -
    from that have ne: "tu \<noteq> []"
      and none: "map_of tu (if p = [] then ''default'' else marker_string p) = None"
      by blast+
    show ?thesis unfolding leaf_resolution[OF ne] none by simp
  qed
  show "toUpdate s = []" if "apply_changes E s h = Inl no_operation"
  proof (rule select_no_operation)
    show "selectTransform E (toUpdate s) h (originalObject s) (selectorObject s) = Inl no_operation"
      using that by (simp add: apply_changes_def)
  qed
  show "apply_changes E s h = Inl no_operation
      \<longleftrightarrow> toUpdate s = [] \<and> reaches E (toUpdate s) h (originalObject s) (selectorObject s)"
  proof (cases "toUpdate s = []")
    case True
    have "(selectTransform E (toUpdate s) h (originalObject s) (selectorObject s) = Inl no_operation)
        = reaches E (toUpdate s) h (originalObject s) (selectorObject s)"
      using select_reaches(1)[of "toUpdate s" E h "originalObject s" "selectorObject s"] True
      by blast
    then show ?thesis using True by (simp add: apply_changes_def)
  next
    case False
    have "apply_changes E s h \<noteq> Inl no_operation"
    proof
      assume "apply_changes E s h = Inl no_operation"
      then have "selectTransform E (toUpdate s) h (originalObject s) (selectorObject s)
          = Inl no_operation"
        by (simp add: apply_changes_def)
      then have "toUpdate s = []" by (rule select_no_operation)
      then show False using False by simp
    qed
    then show ?thesis using False by simp
  qed
qed

text \<open>The theorem on \<^verbatim>\<open>{ p: 5 }\<close> with the selector \<^verbatim>\<open>{ p: '#' }\<close> and no operation; on
  \<^verbatim>\<open>{ a: 1 }\<close> with the selector \<^verbatim>\<open>{ toString: '#' }\<close> and no operation, where the marker is
  reached through the inherited \<^verbatim>\<open>toString\<close>; and on a leaf marked \<^verbatim>\<open>#/b\<close> with a ledger
  that only has an entry for \<^verbatim>\<open>#/a\<close>.\<close>

theorem no_operation_queued_witness:
  "reaches id_env [] single_heap (Ref 0) single_selector
   \<and> toUpdate (selectorWrapper single_selector (Ref 0)) = []
   \<and> apply_changes id_env (selectorWrapper single_selector (Ref 0)) single_heap = Inl no_operation
   \<and> reaches id_env [] missing_heap (Ref 0) (Mapping [(''toString'', Marker [])])
   \<and> apply_changes id_env (selectorWrapper (Mapping [(''toString'', Marker [])]) (Ref 0)) missing_heap
       = Inl no_operation
   \<and> [(''#/a'', Updater (Num 9) OpSet)] \<noteq> []
   \<and> map_of [(''#/a'', Updater (Num 9) OpSet)] (marker_string ''/b'') = None
   \<and> selectTransform id_env [(''#/a'', Updater (Num 9) OpSet)] single_heap (Num 5) (Marker ''/b'')
      = Inr (Num 5, single_heap)"
proof -
  let ?s = "selectorWrapper single_selector (Ref 0)"
  let ?s2 = "selectorWrapper (Mapping [(''toString'', Marker [])]) (Ref 0)"
  let ?tu = "[(''#/a'', Updater (Num 9) OpSet)]"
  have 4: "reaches id_env [] single_heap (Ref 0) single_selector" by code_simp
  have 5: "toUpdate ?s = []" by code_simp
  have o1: "originalObject ?s = Ref 0" by code_simp
  have o2: "selectorObject ?s = single_selector" by code_simp
  have r2: "reaches id_env [] missing_heap (Ref 0) (Mapping [(''toString'', Marker [])])" by code_simp
  have u2: "toUpdate ?s2 = []" by code_simp
  have q1: "originalObject ?s2 = Ref 0" by code_simp
  have q2: "selectorObject ?s2 = Mapping [(''toString'', Marker [])]" by code_simp
  have 7: "?tu \<noteq> []" by simp
  have 8: "map_of ?tu (marker_string ''/b'') = None"
    by (simp add: marker_string_def)
  then have m8: "map_of ?tu (if ''/b'' = [] then ''default'' else marker_string ''/b'') = None"
    by simp
  note t = no_operation_queued[of id_env ?tu single_heap "Num 5" "''/b''" ?s]
  note t2 = no_operation_queued[of id_env ?tu missing_heap "Num 5" "''/b''" ?s2]
  from t have a: "apply_changes id_env ?s single_heap = Inl no_operation
      \<longleftrightarrow> toUpdate ?s = [] \<and> reaches id_env (toUpdate ?s) single_heap (originalObject ?s) (selectorObject ?s)"
    by (elim conjE)
  have 6: "apply_changes id_env ?s single_heap = Inl no_operation"
    using a 4 5 unfolding o1 o2 by simp
  from t2 have a2: "apply_changes id_env ?s2 missing_heap = Inl no_operation
      \<longleftrightarrow> toUpdate ?s2 = [] \<and> reaches id_env (toUpdate ?s2) missing_heap (originalObject ?s2) (selectorObject ?s2)"
    by (elim conjE)
  have 62: "apply_changes id_env ?s2 missing_heap = Inl no_operation"
    using a2 r2 u2 unfolding q1 q2 by simp
  from t have b: "?tu \<noteq> [] \<and> map_of ?tu (if ''/b'' = [] then ''default'' else marker_string ''/b'') = None
        \<longrightarrow> selectTransform id_env ?tu single_heap (Num 5) (Marker ''/b'') = Inr (Num 5, single_heap)"
    by (elim conjE)
  have 9: "selectTransform id_env ?tu single_heap (Num 5) (Marker ''/b'') = Inr (Num 5, single_heap)"
    using b 7 m8 by blast
  show ?thesis using 4 5 6 r2 62 7 8 9 by blast
qed

end
